theory Spec2Isabelle
  imports Main "HOL-Library.Word"
begin

unbundle bit_operations_syntax

section \<open>QMemstat: page-info stream decoder and mosaic layout (mosaicwidget.cpp)\<close>

text \<open>
  The development embeds the functions of \<^verbatim>\<open>mosaicwidget.cpp\<close>:
  \<^verbatim>\<open>printablePageFlags\<close>, \<^verbatim>\<open>PageInfoReader::addData\<close>, the coalescing scan, the row
  count, the page classification and the layout loop of \<^verbatim>\<open>MosaicWidget::updatePageInfo\<close>,
  \<^verbatim>\<open>MosaicWidget::addressAtPos\<close> and \<^verbatim>\<open>MosaicWidget::printPageFlagsAtAddr\<close>.
  Fixed-width C++ integers are words: \<^verbatim>\<open>quint64\<close>/\<^verbatim>\<open>size_t\<close> is \<^typ>\<open>64 word\<close>,
  \<^verbatim>\<open>quint32\<close>/\<^verbatim>\<open>uint\<close> is \<^typ>\<open>32 word\<close>, a byte of a \<^verbatim>\<open>QByteArray\<close> is \<^typ>\<open>8 word\<close>.
\<close>

type_synonym byte = "8 word"
type_synonym u32 = "32 word"
type_synonym u64 = "64 word"

subsection \<open>Data model\<close>

text \<open>
  \<^verbatim>\<open>struct MappedRegion\<close> is declared in \<^verbatim>\<open>pageinfo.h\<close>; its fields are the ones
  \<^verbatim>\<open>addData\<close> assigns: \<^verbatim>\<open>start\<close>, \<^verbatim>\<open>end\<close>, \<^verbatim>\<open>backingFile\<close>, \<^verbatim>\<open>useCounts\<close>,
  \<^verbatim>\<open>combinedFlags\<close>. The field \<^verbatim>\<open>end\<close> is spelt \<open>end_addr\<close> here.
\<close>

record MappedRegion =
  start :: u64
  end_addr :: u64
  backingFile :: "byte list"
  useCounts :: "u32 list"
  combinedFlags :: "u32 list"

text \<open>
  Modelled from the spec: \<^verbatim>\<open>PageInfo::pageSize\<close> is declared in \<^verbatim>\<open>pageinfo.h\<close>, which is
  not among the sources. The spec fixes a 4096-byte page (\<open>pageSize = 0x1000\<close> in its
  scenario).
\<close>

definition pageSize :: nat where
  "pageSize = 4096"

subsection \<open>Reading the byte buffer\<close>

text \<open>
  \<^verbatim>\<open>addData\<close> reads integers with \<^verbatim>\<open>*reinterpret_cast<const uint64_t *>(buf + pos)\<close>: the
  bytes at \<open>pos\<close> in the byte order of the host. The model takes the little-endian order
  of the x86-64 and AArch64 hosts the tool runs on. A read that leaves the buffer is
  undefined behaviour in C++; the checked readers return \<open>None\<close> there, so that an
  out-of-buffer read is a result of the model and not a value. A read of no bytes is
  checked like any other: its position has to lie within the buffer or at its end, as
  the pointer \<^verbatim>\<open>buf + pos\<close> has to.
\<close>

fun le_word :: "byte list \<Rightarrow> 'a::len word" where
  "le_word [] = 0"
| "le_word (b # bs) = ucast b + 256 * le_word bs"

definition bytes_at :: "byte list \<Rightarrow> nat \<Rightarrow> nat \<Rightarrow> byte list" where
  "bytes_at buf pos n = take n (drop pos buf)"

definition u64_at :: "byte list \<Rightarrow> nat \<Rightarrow> u64" where
  "u64_at buf pos = le_word (bytes_at buf pos 8)"

definition u32_at :: "byte list \<Rightarrow> nat \<Rightarrow> u32" where
  "u32_at buf pos = le_word (bytes_at buf pos 4)"

definition read_bytes :: "byte list \<Rightarrow> nat \<Rightarrow> nat \<Rightarrow> byte list option" where
  "read_bytes buf pos n = (if pos + n \<le> length buf then Some (bytes_at buf pos n) else None)"

definition read_u64 :: "byte list \<Rightarrow> nat \<Rightarrow> u64 option" where
  "read_u64 buf pos = (if pos + 8 \<le> length buf then Some (u64_at buf pos) else None)"

definition read_u32 :: "byte list \<Rightarrow> nat \<Rightarrow> u32 option" where
  "read_u32 buf pos = (if pos + 4 \<le> length buf then Some (u32_at buf pos) else None)"

definition read_u32_array :: "byte list \<Rightarrow> nat \<Rightarrow> nat \<Rightarrow> u32 list option" where
  "read_u32_array buf pos n =
     (if pos + 4 * n \<le> length buf then Some (map (\<lambda>i. u32_at buf (pos + 4 * i)) [0..<n])
      else None)"

subsection \<open>PageInfoReader::addData\<close>

text \<open>
  \<^verbatim>\<open>(backingFileLength + sizeof(uint32_t) - 1) & ~0x3\<close>, computed in \<^verbatim>\<open>size_t\<close>: the
  32-bit length is widened, and \<^verbatim>\<open>~0x3\<close> (the \<^verbatim>\<open>int\<close> -4) becomes the 64-bit mask.
\<close>

definition paddedLength :: "u32 \<Rightarrow> nat" where
  "paddedLength backingFileLength = unat (((ucast backingFileLength :: u64) + 4 - 1) AND NOT 3)"

text \<open>\<^verbatim>\<open>const size_t arrayLength = (mr.end - mr.start) / PageInfo::pageSize\<close>; the
  subtraction is unsigned and wraps when \<open>end < start\<close>.\<close>

definition arrayLength :: "u64 \<Rightarrow> u64 \<Rightarrow> nat" where
  "arrayLength s e = unat ((e - s) div of_nat pageSize)"

text \<open>
  One pass of the body of \<^verbatim>\<open>for (size_t pos = sizeof(size_t); pos < endPos; )\<close>: the
  region read at \<open>pos\<close> and the position after it. The body does not consult
  \<open>endPos\<close>; the position is a \<^typ>\<open>nat\<close> because every advance is bounded by a read
  that the buffer has to hold (the padding apart, which adds at most 3).
\<close>

definition decodeRegion :: "byte list \<Rightarrow> nat \<Rightarrow> (MappedRegion \<times> nat) option" where
  "decodeRegion buf pos =
     (case read_u64 buf pos of None \<Rightarrow> None | Some s \<Rightarrow>
      case read_u64 buf (pos + 8) of None \<Rightarrow> None | Some e \<Rightarrow>
      case read_u32 buf (pos + 16) of None \<Rightarrow> None | Some backingFileLength \<Rightarrow>
      case read_bytes buf (pos + 20) (unat backingFileLength) of None \<Rightarrow> None | Some name \<Rightarrow>
      let pos2 = pos + 20 + paddedLength backingFileLength;
          n = arrayLength s e
      in case read_u32_array buf pos2 n of None \<Rightarrow> None | Some counts \<Rightarrow>
         case read_u32_array buf (pos2 + 4 * n) n of None \<Rightarrow> None | Some flags \<Rightarrow>
           Some (\<lparr>start = s, end_addr = e, backingFile = name,
                  useCounts = counts, combinedFlags = flags\<rparr>,
                 pos2 + 2 * n * 4))"

lemma decodeRegion_advances:
  "decodeRegion buf pos = Some (mr, pos') \<Longrightarrow> pos + 20 \<le> pos'"
  by (auto simp: decodeRegion_def Let_def split: option.splits)

function decodeRegions ::
  "byte list \<Rightarrow> nat \<Rightarrow> nat \<Rightarrow> MappedRegion list \<Rightarrow> MappedRegion list option" where
  "decodeRegions buf endPos pos acc =
     (if pos < endPos then
        (case decodeRegion buf pos of
           None \<Rightarrow> None
         | Some res \<Rightarrow> decodeRegions buf endPos (snd res) (acc @ [fst res]))
      else Some acc)"
  by pat_completeness auto
termination
proof (relation "measure (\<lambda>(buf, endPos, pos, acc). endPos - pos)")
  show "wf (measure (\<lambda>(buf, endPos, pos, acc). endPos - pos))"
    by simp
next
  fix buf :: "byte list" and endPos pos :: nat and acc :: "MappedRegion list" and res
  assume "pos < endPos" and "decodeRegion buf pos = Some res"
  then have "pos + 20 \<le> snd res"
    using decodeRegion_advances [of buf pos "fst res" "snd res"] by simp
  with \<open>pos < endPos\<close>
  show "((buf, endPos, snd res, acc @ [fst res]), (buf, endPos, pos, acc))
          \<in> measure (\<lambda>(buf, endPos, pos, acc). endPos - pos)"
    by simp
qed

declare decodeRegions.simps [simp del]

text \<open>
  The reader's members (declared in \<^verbatim>\<open>mosaicwidget.h\<close>). \<^verbatim>\<open>m_length\<close> receives a
  \<^verbatim>\<open>uint64_t\<close>, is compared with \<open>0\<close> and set to \<open>-1\<close>, and \<^verbatim>\<open>sizeof(m_length)\<close>
  stands for \<^verbatim>\<open>sizeof(size_t)\<close>: a signed 64-bit integer, here a word read with the
  signed order \<open><s\<close>. A reader starts with an empty buffer and \<^verbatim>\<open>m_length\<close> \<open>-1\<close>, the
  value every consumed frame leaves.
\<close>

record PageInfoReader =
  m_buffer :: "byte list"
  m_length :: u64
  m_mappedRegions :: "MappedRegion list"

text \<open>\<^verbatim>\<open>if (m_length < 0 && size_t(m_buffer.length()) >= sizeof(size_t)) m_length = ...\<close>\<close>

definition latchLength :: "PageInfoReader \<Rightarrow> PageInfoReader" where
  "latchLength r =
     (if m_length r <s 0 \<and> 8 \<le> length (m_buffer r)
      then r\<lparr>m_length := u64_at (m_buffer r) 0\<rparr> else r)"

text \<open>\<^verbatim>\<open>endPos = m_length + sizeof(m_length)\<close>, in \<^verbatim>\<open>size_t\<close>.\<close>

definition endPosOf :: "PageInfoReader \<Rightarrow> nat" where
  "endPosOf r = unat (m_length r + 8)"

text \<open>\<^verbatim>\<open>m_length >= 0 && size_t(m_buffer.length()) >= m_length + sizeof(size_t)\<close>\<close>

definition frameReady :: "PageInfoReader \<Rightarrow> bool" where
  "frameReady r = (0 \<le>s m_length r \<and> endPosOf r \<le> length (m_buffer r))"

text \<open>Two's complement sign of a 64-bit word, in terms of its unsigned value.\<close>

lemma odd_div_top:
  fixes k c :: nat
  assumes "k < 2 * c"
  shows "odd (k div c) = (c \<le> k)"
proof (cases "k < c")
  case True
  then show ?thesis by simp
next
  case False
  with assms have "0 < c" "c \<le> k" "k - c < c" by simp_all
  then have "k div c = Suc 0"
    by (simp add: le_div_geq)
  with \<open>c \<le> k\<close> show ?thesis by simp
qed

lemma not_bit63:
  fixes w :: u64
  shows "(\<not> bit w (63::nat)) = (unat w < 9223372036854775808)"
proof -
  have "unat w < 2 * 9223372036854775808"
    using unsigned_less [of w, where 'a = nat] by simp
  then have "odd (unat w div 9223372036854775808) = (9223372036854775808 \<le> unat w)"
    by (rule odd_div_top)
  moreover have "bit w (63::nat) = bit (unat w) 63"
    by (simp add: bit_unsigned_iff)
  moreover have "bit (unat w) 63 = odd (unat w div 9223372036854775808)"
    unfolding bit_iff_odd by simp
  ultimately show ?thesis
    by (simp only: not_le [symmetric])
qed

lemma nonneg64:
  fixes w :: u64
  shows "(0 \<le>s w) = (unat w < 9223372036854775808)"
  using bit_last_iff [of w] by (simp add: word_sle_eq not_less not_bit63 [symmetric])

lemma neg64:
  fixes w :: u64
  shows "(w <s 0) = (9223372036854775808 \<le> unat w)"
  using nonneg64 [of w] by (simp add: signed.not_le [symmetric] not_less [symmetric])

lemma endPosOf_nonneg:
  "0 \<le>s m_length r \<Longrightarrow> endPosOf r = unat (m_length r) + 8"
  by (simp add: endPosOf_def nonneg64 unat_word_ariths)

text \<open>
  The \<^verbatim>\<open>while (true)\<close> loop of \<^verbatim>\<open>addData\<close>, entered after \<^verbatim>\<open>m_buffer += data\<close>.
  Each pass that finds a frame clears \<^verbatim>\<open>m_mappedRegions\<close>, decodes the regions from
  position \<^verbatim>\<open>sizeof(size_t)\<close> up to \<open>endPos\<close>, removes the first \<open>endPos\<close> bytes and
  resets \<^verbatim>\<open>m_length\<close> to \<open>-1\<close>; the loop ends at the first pass that finds none.
  \<open>None\<close> is a read outside the buffer.
\<close>

function addData_loop :: "PageInfoReader \<Rightarrow> bool \<Rightarrow> (bool \<times> PageInfoReader) option" where
  "addData_loop r ret =
     (if frameReady (latchLength r) then
        (case decodeRegions (m_buffer (latchLength r)) (endPosOf (latchLength r)) 8 [] of
           None \<Rightarrow> None
         | Some regions \<Rightarrow>
             addData_loop
               \<lparr>m_buffer = drop (endPosOf (latchLength r)) (m_buffer (latchLength r)),
                m_length = - 1,
                m_mappedRegions = regions\<rparr> True)
      else Some (ret, latchLength r))"
  by pat_completeness auto
termination
proof (relation "measure (\<lambda>(r, ret). length (m_buffer r))")
  show "wf (measure (\<lambda>(r, ret). length (m_buffer r)))"
    by simp
next
  fix r :: PageInfoReader and ret :: bool and regions :: "MappedRegion list"
  assume ready: "frameReady (latchLength r)"
  then have "8 \<le> endPosOf (latchLength r)"
    and "endPosOf (latchLength r) \<le> length (m_buffer (latchLength r))"
    using endPosOf_nonneg [of "latchLength r"] by (simp_all add: frameReady_def)
  moreover have "m_buffer (latchLength r) = m_buffer r"
    by (simp add: latchLength_def)
  ultimately
  show "((\<lparr>m_buffer = drop (endPosOf (latchLength r)) (m_buffer (latchLength r)),
            m_length = - 1, m_mappedRegions = regions\<rparr>, True), (r, ret))
          \<in> measure (\<lambda>(r, ret). length (m_buffer r))"
    by simp
qed

declare addData_loop.simps [simp del]

definition addData :: "PageInfoReader \<Rightarrow> byte list \<Rightarrow> (bool \<times> PageInfoReader) option" where
  "addData r dat = addData_loop (r\<lparr>m_buffer := m_buffer r @ dat\<rparr>) False"

subsection \<open>Frames on the wire\<close>

text \<open>
  The wire format of the spec: \<open>frame := length:u64 payload\<close>, the payload being
  \<open>length\<close> bytes. A buffer starts with a complete frame when it holds the 8 bytes of the
  length and the payload they announce.
\<close>

definition completeFrame :: "byte list \<Rightarrow> bool" where
  "completeFrame b = (8 \<le> length b \<and> 8 + unat (u64_at b 0) \<le> length b)"

text \<open>The regions \<^verbatim>\<open>addData\<close> decodes from the frame at the head of a buffer.\<close>

definition decodeFrame :: "byte list \<Rightarrow> MappedRegion list option" where
  "decodeFrame b = decodeRegions b (8 + unat (u64_at b 0)) 8 []"

text \<open>
  Between calls \<^verbatim>\<open>m_length\<close> is either negative (no length latched) or the length word
  at the head of the buffer.
\<close>

definition readerInv :: "PageInfoReader \<Rightarrow> bool" where
  "readerInv r =
     (m_length r <s 0 \<or> (8 \<le> length (m_buffer r) \<and> m_length r = u64_at (m_buffer r) 0))"

text \<open>A \<^verbatim>\<open>QByteArray\<close> holds fewer than \<open>2^31\<close> bytes; the proofs need less: fewer
  than \<open>2^63\<close>, so that a length word with the sign bit set is never a complete frame.\<close>

definition bufferBound :: nat where
  "bufferBound = 9223372036854775808"

lemma latchLength_buffer [simp]: "m_buffer (latchLength r) = m_buffer r"
  by (simp add: latchLength_def)

lemma latchLength_regions [simp]: "m_mappedRegions (latchLength r) = m_mappedRegions r"
  by (simp add: latchLength_def)

lemma frameReady_latch:
  assumes "readerInv r" and "length (m_buffer r) < bufferBound"
  shows "frameReady (latchLength r) = completeFrame (m_buffer r)"
    and "completeFrame (m_buffer r) \<Longrightarrow>
           endPosOf (latchLength r) = 8 + unat (u64_at (m_buffer r) 0)"
  using assms
  by (auto simp: readerInv_def latchLength_def frameReady_def completeFrame_def
      bufferBound_def endPosOf_nonneg nonneg64 neg64)

lemma readerInv_latch: "readerInv r \<Longrightarrow> readerInv (latchLength r)"
  by (auto simp: readerInv_def latchLength_def)

lemma addData_loop_step:
  assumes "readerInv r" and "length (m_buffer r) < bufferBound"
  shows "addData_loop r ret =
     (if completeFrame (m_buffer r) then
        (case decodeFrame (m_buffer r) of
           None \<Rightarrow> None
         | Some regions \<Rightarrow>
             addData_loop
               \<lparr>m_buffer = drop (8 + unat (u64_at (m_buffer r) 0)) (m_buffer r),
                m_length = - 1, m_mappedRegions = regions\<rparr> True)
      else Some (ret, latchLength r))"
  using frameReady_latch [OF assms]
  by (subst addData_loop.simps) (auto simp: decodeFrame_def split: option.splits)

text \<open>Feeding a list of chunks, one \<^verbatim>\<open>addData\<close> call each.\<close>

fun feedChunks :: "PageInfoReader \<Rightarrow> byte list list \<Rightarrow> PageInfoReader option" where
  "feedChunks r [] = Some r"
| "feedChunks r (c # cs) =
     (case addData r c of None \<Rightarrow> None | Some res \<Rightarrow> feedChunks (snd res) cs)"

text \<open>A byte sequence that is exactly one frame.\<close>

definition isFrame :: "byte list \<Rightarrow> bool" where
  "isFrame bs = (8 \<le> length bs \<and> length bs = 8 + unat (u64_at bs 0))"

text \<open>The reader after a frame has been consumed from an otherwise empty buffer.\<close>

definition frameResult :: "byte list \<Rightarrow> PageInfoReader option" where
  "frameResult bs = 
     (case decodeFrame bs of None \<Rightarrow> None
      | Some regions \<Rightarrow> Some \<lparr>m_buffer = [], m_length = - 1, m_mappedRegions = regions\<rparr>)"

lemma u64_at_prefix: "8 \<le> length p \<Longrightarrow> u64_at (p @ c) 0 = u64_at p 0"
  by (simp add: u64_at_def bytes_at_def)

lemma not_complete_nil [simp]: "\<not> completeFrame []"
  by (simp add: completeFrame_def)

lemma addData_idle:
  "addData \<lparr>m_buffer = [], m_length = - 1, m_mappedRegions = regions\<rparr> [] =
     Some (False, \<lparr>m_buffer = [], m_length = - 1, m_mappedRegions = regions\<rparr>)"
  by (simp add: addData_def addData_loop.simps latchLength_def frameReady_def)

lemma feedChunks_idle:
  "concat cs = [] \<Longrightarrow>
   feedChunks \<lparr>m_buffer = [], m_length = - 1, m_mappedRegions = regions\<rparr> cs =
     Some \<lparr>m_buffer = [], m_length = - 1, m_mappedRegions = regions\<rparr>"
  by (induction cs) (simp_all add: addData_idle)

lemma readerInv_append:
  "readerInv r \<Longrightarrow> readerInv (r\<lparr>m_buffer := m_buffer r @ c\<rparr>)"
  by (auto simp: readerInv_def u64_at_prefix)

lemma addData_loop_idle:
  "addData_loop \<lparr>m_buffer = [], m_length = - 1, m_mappedRegions = regions\<rparr> ret =
     Some (ret, \<lparr>m_buffer = [], m_length = - 1, m_mappedRegions = regions\<rparr>)"
  by (simp add: addData_loop.simps latchLength_def frameReady_def)

lemma addData_whole_frame:
  assumes "isFrame bs" and "length bs < bufferBound" and "readerInv r"
    and "m_buffer r @ c = bs"
  shows "map_option snd (addData r c) = frameResult bs"
proof -
  let ?r = "r\<lparr>m_buffer := m_buffer r @ c\<rparr>"
  have inv: "readerInv ?r"
    using assms(3) by (rule readerInv_append)
  have buf: "m_buffer ?r = bs"
    using assms(4) by simp
  have complete: "completeFrame bs"
    using assms(1) by (simp add: isFrame_def completeFrame_def)
  have rest: "drop (8 + unat (u64_at bs 0)) bs = []"
    using assms(1) by (simp add: isFrame_def)
  have "addData r c = addData_loop ?r False"
    by (simp add: addData_def)
  also have "\<dots> = (case decodeFrame bs of None \<Rightarrow> None
      | Some regions \<Rightarrow>
          Some (True, \<lparr>m_buffer = [], m_length = - 1, m_mappedRegions = regions\<rparr>))"
    using addData_loop_step [OF inv, of False] assms(2) complete
    by (simp add: buf rest addData_loop_idle split: option.splits)
  finally show ?thesis
    by (simp add: frameResult_def split: option.splits)
qed

lemma addData_partial_frame:
  assumes "isFrame bs" and "length bs < bufferBound" and "readerInv r"
    and "m_buffer r @ c @ rest = bs" and "rest \<noteq> []"
  shows "\<exists>r'. addData r c = Some (False, r') \<and> readerInv r' \<and> m_buffer r' = m_buffer r @ c
     \<and> m_mappedRegions r' = m_mappedRegions r"
proof -
  let ?b = "m_buffer r @ c"
  let ?r = "r\<lparr>m_buffer := ?b\<rparr>"
  have inv: "readerInv ?r"
    using assms(3) by (rule readerInv_append)
  have bs: "bs = ?b @ rest"
    using assms(4) by simp
  have short: "length ?b < length bs"
    using assms(5) by (simp add: bs)
  have "\<not> completeFrame ?b"
  proof
    assume c: "completeFrame ?b"
    then have "8 \<le> length ?b"
      by (simp add: completeFrame_def)
    then have "u64_at bs 0 = u64_at ?b 0"
      unfolding bs by (rule u64_at_prefix)
    with c assms(1) short show False
      by (simp add: completeFrame_def isFrame_def)
  qed
  moreover have "length (m_buffer ?r) < bufferBound"
    using short assms(2) by simp
  ultimately have "addData r c = Some (False, latchLength ?r)"
    using addData_loop_step [OF inv, of False] by (simp add: addData_def)
  moreover have "readerInv (latchLength ?r)"
    using inv by (rule readerInv_latch)
  ultimately show ?thesis
    by simp
qed

lemma feedChunks_frame:
  assumes "isFrame bs" and "length bs < bufferBound"
  shows "readerInv r \<Longrightarrow> m_buffer r @ concat cs = bs \<Longrightarrow> m_buffer r \<noteq> bs \<Longrightarrow>
     feedChunks r cs = frameResult bs"
proof (induction cs arbitrary: r)
  case Nil
  then show ?case by simp
next
  case (Cons c cs)
  show ?case
  proof (cases "concat cs = []")
    case True
    with Cons.prems have whole: "m_buffer r @ c = bs"
      by simp
    have res: "map_option snd (addData r c) = frameResult bs"
      using assms Cons.prems(1) whole by (rule addData_whole_frame)
    show ?thesis
    proof (cases "addData r c")
      case None
      with res show ?thesis by simp
    next
      case (Some res')
      with res obtain regions where
        "snd res' = \<lparr>m_buffer = [], m_length = - 1, m_mappedRegions = regions\<rparr>"
        and "frameResult bs = Some (snd res')"
        by (auto simp: frameResult_def split: option.splits)
      with Some True show ?thesis
        by (simp add: feedChunks_idle)
    qed
  next
    case False
    have "m_buffer r @ c @ concat cs = bs"
      using Cons.prems(2) by simp
    from addData_partial_frame [OF assms Cons.prems(1) this False]
    obtain r' where r': "addData r c = Some (False, r')" "readerInv r'"
      "m_buffer r' = m_buffer r @ c"
      by blast
    have "m_buffer r' \<noteq> bs"
      using False Cons.prems(2) r'(3) by auto
    moreover have "m_buffer r' @ concat cs = bs"
      using Cons.prems(2) r'(3) by simp
    ultimately have "feedChunks r' cs = frameResult bs"
      using Cons.IH [OF r'(2)] by simp
    with r'(1) show ?thesis by simp
  qed
qed

text \<open>
  An example frame: one region \<open>0x1000..0x3000\<close> backed by \<open>"ab"\<close>, two pages with use
  count 1 and the flag word \<open>0x80000000\<close> (present), cut into four chunks.
\<close>

definition exFrame :: "byte list" where
  "exFrame = [40,0,0,0,0,0,0,0,
              0,0x10,0,0,0,0,0,0,  0,0x30,0,0,0,0,0,0,  2,0,0,0,  0x61,0x62,0,0,
              1,0,0,0, 1,0,0,0,  0,0,0,0x80, 0,0,0,0x80]"

definition exReader :: PageInfoReader where
  "exReader = \<lparr>m_buffer = [], m_length = - 1, m_mappedRegions = []\<rparr>"

definition exChunks :: "byte list list" where
  "exChunks = [take 3 exFrame, [], take 20 (drop 3 exFrame), drop 23 exFrame]"

text \<open>
  Claim C2 (partial-feed equivalence). For every frame \<open>bs\<close> and every way \<open>cs\<close> of
  cutting it into consecutive chunks (empty chunks included), feeding the chunks one
  call at a time to a reader that holds no pending bytes leaves the reader in the state
  that one call with the whole frame leaves it in: the same region sequence (starts,
  ends, backing files, use counts, flags), the same buffer and length. Where the frame's
  regions read beyond the buffered bytes, both sides are the undefined result \<open>None\<close>.
\<close>

theorem partial_feed_equivalence:
  assumes "isFrame bs" and "length bs < bufferBound"
    and "m_buffer r = []" and "m_length r <s 0"
    and "concat cs = bs"
  shows "feedChunks r cs = map_option snd (addData r bs)"
proof -
  have inv: "readerInv r"
    using assms(4) by (simp add: readerInv_def)
  have "bs \<noteq> []"
    using assms(1) by (auto simp: isFrame_def)
  with assms(3,5) have "feedChunks r cs = frameResult bs"
    using feedChunks_frame [OF assms(1,2) inv, of cs] by simp
  moreover have "map_option snd (addData r bs) = frameResult bs"
    using assms(1,2) inv by (rule addData_whole_frame) (simp add: assms(3))
  ultimately show ?thesis by simp
qed

theorem partial_feed_equivalence_witness:
  "isFrame exFrame \<and> length exFrame < bufferBound \<and> m_buffer exReader = []
   \<and> m_length exReader <s 0 \<and> concat exChunks = exFrame
   \<and> feedChunks exReader exChunks = map_option snd (addData exReader exFrame)
   \<and> feedChunks exReader exChunks =
       Some \<lparr>m_buffer = [], m_length = - 1, m_mappedRegions =
         [\<lparr>start = 0x1000, end_addr = 0x3000, backingFile = [0x61, 0x62],
           useCounts = [1, 1], combinedFlags = [0x80000000, 0x80000000]\<rparr>]\<rparr>"
proof -
  have h1: "isFrame exFrame" by code_simp
  have h2: "length exFrame < bufferBound" by (simp add: exFrame_def bufferBound_def)
  have h3: "m_buffer exReader = []" by (simp add: exReader_def)
  have h4: "m_length exReader <s 0" by (simp add: exReader_def)
  have h5: "concat exChunks = exFrame" by (simp add: exChunks_def exFrame_def)
  have whole: "map_option snd (addData exReader exFrame) =
       Some \<lparr>m_buffer = [], m_length = - 1, m_mappedRegions =
         [\<lparr>start = 0x1000, end_addr = 0x3000, backingFile = [0x61, 0x62],
           useCounts = [1, 1], combinedFlags = [0x80000000, 0x80000000]\<rparr>]\<rparr>"
    by code_simp
  have eq: "feedChunks exReader exChunks = map_option snd (addData exReader exFrame)"
    using h1 h2 h3 h4 h5 by (rule partial_feed_equivalence)
  show ?thesis
    by (intro conjI h1 h2 h3 h4 h5 eq) (simp only: eq whole)
qed

subsection \<open>Several frames in one call\<close>

text \<open>
  The complete frames at the head of a buffer, following the wire format: each element
  is the buffer from the start of one complete frame on (the decoder reads a frame from
  the buffer it sits in). \<open>pendingBytes\<close> is what follows the last complete frame.
\<close>

function frameStarts :: "byte list \<Rightarrow> byte list list" where
  "frameStarts b =
     (if completeFrame b then b # frameStarts (drop (8 + unat (u64_at b 0)) b) else [])"
  by pat_completeness auto
termination
  by (relation "measure length") (auto simp: completeFrame_def)

declare frameStarts.simps [simp del]

function pendingBytes :: "byte list \<Rightarrow> byte list" where
  "pendingBytes b =
     (if completeFrame b then pendingBytes (drop (8 + unat (u64_at b 0)) b) else b)"
  by pat_completeness auto
termination
  by (relation "measure length") (auto simp: completeFrame_def)

declare pendingBytes.simps [simp del]

lemma frameStarts_Nil_iff: "frameStarts b = [] \<longleftrightarrow> \<not> completeFrame b"
  by (subst frameStarts.simps) simp

lemma addData_loop_frames:
  "readerInv r \<Longrightarrow> m_buffer r = b \<Longrightarrow> length b < bufferBound \<Longrightarrow>
   (addData_loop r ret = None \<longleftrightarrow> (\<exists>f \<in> set (frameStarts b). decodeFrame f = None)) \<and>
   (\<forall>ret' r'. addData_loop r ret = Some (ret', r') \<longrightarrow>
      ret' = (ret \<or> frameStarts b \<noteq> []) \<and>
      (frameStarts b = [] \<longrightarrow> r' = latchLength r) \<and>
      m_buffer r' = pendingBytes b \<and>
      (frameStarts b \<noteq> [] \<longrightarrow>
         decodeFrame (last (frameStarts b)) = Some (m_mappedRegions r')))"
proof (induction b arbitrary: r ret rule: frameStarts.induct)
  case (1 b)
  note step = addData_loop_step [OF "1.prems"(1), of ret, unfolded "1.prems"(2), OF "1.prems"(3)]
  show ?case
  proof (cases "completeFrame b")
    case False
    then have "frameStarts b = []"
      by (simp add: frameStarts_Nil_iff)
    with False show ?thesis
      using step "1.prems"(2) by (simp add: pendingBytes.simps [of b])
  next
    case True
    let ?rest = "drop (8 + unat (u64_at b 0)) b"
    have fs: "frameStarts b = b # frameStarts ?rest"
      using True by (subst frameStarts.simps) simp
    show ?thesis
    proof (cases "decodeFrame b")
      case None
      then show ?thesis
        using step True by (simp add: fs)
    next
      case (Some regions)
      let ?r = "\<lparr>m_buffer = ?rest, m_length = - 1, m_mappedRegions = regions\<rparr>"
      have loop: "addData_loop r ret = addData_loop ?r True"
        using step True Some by simp
      have pend: "pendingBytes b = pendingBytes ?rest"
        using True by (subst pendingBytes.simps) simp
      have inv: "readerInv ?r"
        by (simp add: readerInv_def)
      have len: "length ?rest < bufferBound"
        using "1.prems"(3) by simp
      note IH = "1.IH" [OF True inv _ len, of True, simplified]
      show ?thesis
        unfolding loop fs pend using IH Some
        by auto
    qed
  qed
qed

text \<open>Every call that returns keeps the invariant, and the buffer does not grow beyond
  the bytes fed: the states between calls are those of \<open>readerInv\<close>.\<close>

lemma addData_loop_readerInv:
  "readerInv r \<Longrightarrow> m_buffer r = b \<Longrightarrow> length b < bufferBound \<Longrightarrow>
   addData_loop r ret = Some (ret', r') \<Longrightarrow>
   readerInv r' \<and> length (m_buffer r') \<le> length b"
proof (induction b arbitrary: r ret rule: frameStarts.induct)
  case (1 b)
  note step = addData_loop_step [OF "1.prems"(1), of ret, unfolded "1.prems"(2), OF "1.prems"(3)]
  show ?case
  proof (cases "completeFrame b")
    case False
    with step "1.prems"(4) have "r' = latchLength r"
      by simp
    with "1.prems"(1,2) show ?thesis
      by (simp add: readerInv_latch)
  next
    case True
    let ?rest = "drop (8 + unat (u64_at b 0)) b"
    from step True "1.prems"(4) obtain regions where
      loop: "addData_loop \<lparr>m_buffer = ?rest, m_length = - 1, m_mappedRegions = regions\<rparr> True
               = Some (ret', r')"
      by (auto split: option.splits)
    have inv: "readerInv \<lparr>m_buffer = ?rest, m_length = - 1, m_mappedRegions = regions\<rparr>"
      by (simp add: readerInv_def)
    have len: "length ?rest < bufferBound"
      using "1.prems"(3) by simp
    from "1.IH" [OF True inv _ len loop]
    have "readerInv r'" and "length (m_buffer r') \<le> length ?rest"
      by simp_all
    then show ?thesis
      by (simp add: le_diff_conv)
  qed
qed

lemma addData_readerInv:
  assumes "readerInv r" and "length (m_buffer r @ dat) < bufferBound"
    and "addData r dat = Some (ret, r')"
  shows "readerInv r' \<and> length (m_buffer r') \<le> length (m_buffer r @ dat)"
  using addData_loop_readerInv [of "r\<lparr>m_buffer := m_buffer r @ dat\<rparr>" "m_buffer r @ dat" False ret r']
    readerInv_append [OF assms(1), of dat] assms(2,3)
  by (simp add: addData_def)

text \<open>A second frame (one empty region at \<open>0x5000\<close>) and a stream of two frames
  followed by three bytes of a third.\<close>

definition exFrame2 :: "byte list" where
  "exFrame2 = [20,0,0,0,0,0,0,0,
               0,0x50,0,0,0,0,0,0,  0,0x50,0,0,0,0,0,0,  0,0,0,0]"

definition exStream :: "byte list" where
  "exStream = exFrame @ exFrame2 @ [7, 0, 0]"

text \<open>
  Claim C3. For a reader between calls (\<open>readerInv\<close>) and a buffer of representable
  size: \<^verbatim>\<open>addData\<close> has a defined result exactly when every complete frame in the buffer
  decodes within the buffered bytes; it then returns true if and only if the buffer
  (pending bytes and new data) starts with at least one complete frame; the regions kept
  are those of the last complete frame; and when the declared length of the frame at the
  head exceeds the bytes available there is no error, the result is false, the regions
  are the previous ones and the bytes stay buffered.
\<close>

theorem addData_frames:
  assumes "readerInv r" and "length (m_buffer r @ dat) < bufferBound"
  shows "(addData r dat = None \<longleftrightarrow>
            (\<exists>f \<in> set (frameStarts (m_buffer r @ dat)). decodeFrame f = None)) \<and>
         (\<forall>ret r'. addData r dat = Some (ret, r') \<longrightarrow>
            ret = (frameStarts (m_buffer r @ dat) \<noteq> []) \<and>
            m_buffer r' = pendingBytes (m_buffer r @ dat) \<and>
            (frameStarts (m_buffer r @ dat) = [] \<longrightarrow>
               m_mappedRegions r' = m_mappedRegions r \<and> m_buffer r' = m_buffer r @ dat) \<and>
            (frameStarts (m_buffer r @ dat) \<noteq> [] \<longrightarrow>
               decodeFrame (last (frameStarts (m_buffer r @ dat))) =
                 Some (m_mappedRegions r')))"
proof -
  let ?b = "m_buffer r @ dat"
  let ?r = "r\<lparr>m_buffer := ?b\<rparr>"
  have inv: "readerInv ?r"
    using assms(1) by (rule readerInv_append)
  have buf: "m_buffer ?r = ?b"
    by simp
  note loop = addData_loop_frames [OF inv buf assms(2), of False, folded addData_def]
  have none: "addData r dat = None \<longleftrightarrow> (\<exists>f \<in> set (frameStarts ?b). decodeFrame f = None)"
    using loop by (rule conjunct1)
  have some: "ret = (frameStarts ?b \<noteq> []) \<and>
      m_buffer r' = pendingBytes ?b \<and>
      (frameStarts ?b = [] \<longrightarrow> m_mappedRegions r' = m_mappedRegions r \<and> m_buffer r' = ?b) \<and>
      (frameStarts ?b \<noteq> [] \<longrightarrow> decodeFrame (last (frameStarts ?b)) = Some (m_mappedRegions r'))"
    if run: "addData r dat = Some (ret, r')" for ret r'
  proof -
    from loop run have *: "ret = (False \<or> frameStarts ?b \<noteq> [])"
      "frameStarts ?b = [] \<longrightarrow> r' = latchLength ?r"
      "m_buffer r' = pendingBytes ?b"
      "frameStarts ?b \<noteq> [] \<longrightarrow> decodeFrame (last (frameStarts ?b)) = Some (m_mappedRegions r')"
      by blast+
    have "m_mappedRegions r' = m_mappedRegions r \<and> m_buffer r' = ?b" if "frameStarts ?b = []"
      using that *(2) by simp
    with * show ?thesis
      by simp
  qed
  from none some show ?thesis
    by blast
qed

theorem addData_frames_witness:
  "readerInv exReader \<and> length (m_buffer exReader @ exStream) < bufferBound
   \<and> frameStarts (m_buffer exReader @ exStream) = [exStream, exFrame2 @ [7, 0, 0]]
   \<and> addData exReader exStream =
        Some (True, \<lparr>m_buffer = [7, 0, 0], m_length = - 1, m_mappedRegions =
          [\<lparr>start = 0x5000, end_addr = 0x5000, backingFile = [],
            useCounts = [], combinedFlags = []\<rparr>]\<rparr>)
   \<and> decodeFrame (exFrame2 @ [7, 0, 0]) =
        Some [\<lparr>start = 0x5000, end_addr = 0x5000, backingFile = [],
            useCounts = [], combinedFlags = []\<rparr>]
   \<and> pendingBytes (m_buffer exReader @ exStream) = [7, 0, 0]"
proof -
  let ?r' = "\<lparr>m_buffer = [7, 0, 0], m_length = - 1, m_mappedRegions =
          [\<lparr>start = 0x5000, end_addr = 0x5000, backingFile = [],
            useCounts = [], combinedFlags = []\<rparr>]\<rparr>"
  have h1: "readerInv exReader"
    by (simp add: readerInv_def exReader_def)
  have h2: "length (m_buffer exReader @ exStream) < bufferBound"
    by (simp add: exReader_def exStream_def exFrame_def exFrame2_def bufferBound_def)
  have fs: "frameStarts (m_buffer exReader @ exStream) = [exStream, exFrame2 @ [7, 0, 0]]"
    by code_simp
  have run: "addData exReader exStream = Some (True, ?r')"
    by code_simp
  note facts = addData_frames [OF h1 h2, THEN conjunct2, rule_format, OF run]
  have last_frame: "decodeFrame (exFrame2 @ [7, 0, 0]) =
      Some [\<lparr>start = 0x5000, end_addr = 0x5000, backingFile = [],
            useCounts = [], combinedFlags = []\<rparr>]"
    using facts [THEN conjunct2, THEN conjunct2, THEN conjunct2] by (simp add: fs)
  have pending: "pendingBytes (m_buffer exReader @ exStream) = [7, 0, 0]"
    using facts [THEN conjunct2, THEN conjunct1, symmetric] by simp
  show ?thesis
    by (intro conjI h1 h2 fs run last_frame pending)
qed

subsection \<open>What the decoder does not check\<close>

text \<open>The padded length rounds the backing-file length up to a multiple of four.\<close>

lemma and_not3:
  fixes w :: u64
  shows "w AND NOT 3 = w - (w AND 3)"
proof -
  have "NOT w AND (w AND 3) = 0"
    by (simp add: bit_eq_iff bit_simps)
  then have "w - (w AND 3) = w AND NOT (w AND 3)"
    by (rule disjunctive_diff_eq_and_not)
  also have "\<dots> = w AND NOT 3"
    by (rule bit_eqI) (auto simp: bit_simps)
  finally show ?thesis by simp
qed

lemma unat_widen_plus3:
  fixes n :: u32
  shows "unat (3 + (ucast n :: u64)) = unat n + 3"
proof -
  have small: "unat n < 4294967296"
    using unsigned_less [of n, where 'a = nat] by simp
  then have "take_bit 64 (unat n) = unat n"
    by (simp add: take_bit_nat_eq_self)
  then have "unat (ucast n :: u64) = unat n"
    by (simp add: unsigned_ucast_eq)
  with small show ?thesis
    by (simp add: unat_word_ariths)
qed

lemma paddedLength_bounds:
  "unat n \<le> paddedLength n \<and> paddedLength n \<le> unat n + 3"
proof -
  let ?w = "(ucast n :: u64) + 4 - 1"
  have le: "?w AND 3 \<le> ?w" and le3: "?w AND 3 \<le> 3"
    by (rule word_and_le2, rule word_and_le1)
  have "unat (?w AND NOT 3) = unat ?w - unat (?w AND 3)"
    unfolding and_not3 using le by (rule unat_sub)
  moreover have "unat (?w AND 3) \<le> 3"
    using le3 by (simp add: word_le_nat_alt)
  ultimately show ?thesis
    unfolding paddedLength_def by (simp add: unat_widen_plus3)
qed

lemma decodeRegion_in_buffer:
  assumes "pos + 20 + unat (u32_at buf (pos + 16)) \<le> length buf"
    and "pos + 20 + paddedLength (u32_at buf (pos + 16))
           + 8 * arrayLength (u64_at buf pos) (u64_at buf (pos + 8)) \<le> length buf"
  shows "decodeRegion buf pos =
     Some (\<lparr>start = u64_at buf pos, end_addr = u64_at buf (pos + 8),
            backingFile = bytes_at buf (pos + 20) (unat (u32_at buf (pos + 16))),
            useCounts = map (\<lambda>i. u32_at buf (pos + 20 + paddedLength (u32_at buf (pos + 16)) + 4 * i))
              [0..<arrayLength (u64_at buf pos) (u64_at buf (pos + 8))],
            combinedFlags = map (\<lambda>i. u32_at buf (pos + 20 + paddedLength (u32_at buf (pos + 16))
                 + 4 * arrayLength (u64_at buf pos) (u64_at buf (pos + 8)) + 4 * i))
              [0..<arrayLength (u64_at buf pos) (u64_at buf (pos + 8))]\<rparr>,
           pos + 20 + paddedLength (u32_at buf (pos + 16))
             + 8 * arrayLength (u64_at buf pos) (u64_at buf (pos + 8)))"
  using assms
  by (simp add: decodeRegion_def read_u64_def read_u32_def read_bytes_def read_u32_array_def
      Let_def)

lemma decodeRegions_last:
  assumes "pos < endPos" and "decodeRegion buf pos = Some (mr, pos')" and "endPos \<le> pos'"
  shows "decodeRegions buf endPos pos acc = Some (acc @ [mr])"
  using assms by (simp add: decodeRegions.simps [of buf endPos pos] decodeRegions.simps [of buf endPos pos'])

text \<open>
  Claim C1, as amended. The decoder validates no declared length and has no fault
  result. When the first region of a complete frame declares a backing file that runs
  past the end of the frame, and the bytes the region reads are all buffered, the call
  returns true, the bytes after the frame are taken as the backing file, and the
  previous region sequence is replaced by the region so decoded (no further complete
  frame following).
\<close>

theorem overrun_not_detected:
  assumes "readerInv r" and "b = m_buffer r @ dat" and "length b < bufferBound"
    and "completeFrame b" and "endPos = 8 + unat (u64_at b 0)" and "8 < endPos"
    and "backingFileLength = u32_at b 24"
    and "endPos < 28 + unat backingFileLength"
    and "28 + unat backingFileLength \<le> length b"
    and "28 + paddedLength backingFileLength + 8 * arrayLength (u64_at b 8) (u64_at b 16)
           \<le> length b"
    and "\<not> completeFrame (drop endPos b)"
  shows "\<exists>r' mr. addData r dat = Some (True, r') \<and> m_buffer r' = drop endPos b
           \<and> m_mappedRegions r' = [mr]
           \<and> backingFile mr = bytes_at b 28 (unat backingFileLength)"
proof -
  let ?r = "r\<lparr>m_buffer := b\<rparr>"
  let ?pos' = "28 + paddedLength backingFileLength + 8 * arrayLength (u64_at b 8) (u64_at b 16)"
  obtain mr where mr: "decodeRegion b 8 = Some (mr, ?pos')"
    and name: "backingFile mr = bytes_at b 28 (unat backingFileLength)"
    using decodeRegion_in_buffer [of 8 b] assms(7,9,10) by simp
  have "unat backingFileLength \<le> paddedLength backingFileLength"
    using paddedLength_bounds [of backingFileLength] by simp
  with assms(8) have "endPos \<le> ?pos'"
    by simp
  with assms(6) mr have frame: "decodeFrame b = Some [mr]"
    using decodeRegions_last [of 8 endPos b mr ?pos' "[]"]
    by (simp add: decodeFrame_def assms(5))
  have inv: "readerInv ?r"
    using assms(1,2) readerInv_append [of r dat] by simp
  let ?r1 = "\<lparr>m_buffer = drop endPos b, m_length = - 1, m_mappedRegions = [mr]\<rparr>"
  have inv1: "readerInv ?r1"
    by (simp add: readerInv_def)
  have "addData r dat = addData_loop ?r False"
    by (simp add: addData_def assms(2))
  also have "\<dots> = addData_loop ?r1 True"
    using addData_loop_step [OF inv, of False] assms(3,4) frame
    by (simp add: assms(5))
  also have "\<dots> = Some (True, latchLength ?r1)"
    using addData_loop_step [OF inv1, of True] assms(3,11)
    by simp
  finally show ?thesis
    using name by simp
qed

text \<open>
  A stream whose frame announces 20 payload bytes (the region header alone, so the frame
  ends at byte 28) while the region declares a one-byte backing file and spans one page:
  the name, its padding and both arrays lie after the frame. The reader holds a region
  from an earlier frame.
\<close>

definition exOverrun :: "byte list" where
  "exOverrun = [20,0,0,0,0,0,0,0,
                0,0x10,0,0,0,0,0,0,  0,0x20,0,0,0,0,0,0,  1,0,0,0,
                0x64,0,0,0,  0,0,0,0,  0,0,0,0x80]"

definition exPrevReader :: PageInfoReader where
  "exPrevReader = \<lparr>m_buffer = [], m_length = - 1, m_mappedRegions =
     [\<lparr>start = 0x7000, end_addr = 0x8000, backingFile = [],
       useCounts = [1], combinedFlags = [0x80000000]\<rparr>]\<rparr>"

text \<open>
  Claim C1 as stated fails: on \<open>exOverrun\<close> the frame ends at byte 28, the declared
  backing-file length is 1, and the call returns true with a region whose backing file is
  byte 28 and whose arrays are the bytes after it; the region held before is gone.
\<close>

theorem overrun_counterexample:
  "8 + unat (u64_at exOverrun 0) = 28
   \<and> u32_at exOverrun 24 = 1
   \<and> addData exPrevReader exOverrun =
       Some (True,
         \<lparr>m_buffer = [100, 0, 0, 0, 0, 0, 0, 0, 0, 0, 0, 128], m_length = 100,
           m_mappedRegions =
             [\<lparr>start = 0x1000, end_addr = 0x2000, backingFile = [100],
               useCounts = [0], combinedFlags = [0x80000000]\<rparr>]\<rparr>)"
  by code_simp

theorem overrun_not_detected_witness:
  "readerInv exPrevReader \<and> length exOverrun < bufferBound \<and> completeFrame exOverrun
   \<and> 28 = 8 + unat (u64_at exOverrun 0) \<and> (1 :: u32) = u32_at exOverrun 24
   \<and> 28 < 28 + unat (1 :: u32) \<and> 28 + unat (1 :: u32) \<le> length exOverrun
   \<and> \<not> completeFrame (drop 28 exOverrun)
   \<and> (\<exists>r' mr. addData exPrevReader exOverrun = Some (True, r')
         \<and> m_buffer r' = drop 28 exOverrun \<and> m_mappedRegions r' = [mr]
         \<and> backingFile mr = bytes_at exOverrun 28 (unat (1 :: u32)))"
proof -
  have h1: "readerInv exPrevReader"
    by (simp add: readerInv_def exPrevReader_def)
  have h2: "exOverrun = m_buffer exPrevReader @ exOverrun"
    by (simp add: exPrevReader_def)
  have h3: "length exOverrun < bufferBound"
    by (simp add: exOverrun_def bufferBound_def)
  have h4: "completeFrame exOverrun"
    by code_simp
  have h5: "28 = 8 + unat (u64_at exOverrun 0)"
    by code_simp
  have h6: "(8 :: nat) < 28"
    by simp
  have h7: "(1 :: u32) = u32_at exOverrun 24"
    by code_simp
  have h8: "28 < 28 + unat (1 :: u32)"
    by simp
  have h9: "28 + unat (1 :: u32) \<le> length exOverrun"
    by (simp add: exOverrun_def)
  have h10: "28 + paddedLength 1 + 8 * arrayLength (u64_at exOverrun 8) (u64_at exOverrun 16)
      \<le> length exOverrun"
    by code_simp
  have h11: "\<not> completeFrame (drop 28 exOverrun)"
    by code_simp
  from overrun_not_detected [OF h1 h2 h3 h4 h5 h6 h7 h8 h9 h10 h11]
  show ?thesis
    using h1 h3 h4 h5 h7 h8 h9 h11 by blast
qed

section \<open>Page flags\<close>

text \<open>
  \<^verbatim>\<open>pageFlagNames\<close>: 32 entries, \<^verbatim>\<open>nullptr\<close> at positions 23 to 27.
\<close>

definition pageFlagCount :: nat where
  "pageFlagCount = 32"

definition pageFlagNames :: "string option list" where
  "pageFlagNames =
     [Some ''LOCKED'', Some ''ERROR'', Some ''REFERENCED'', Some ''UPTODATE'', Some ''DIRTY'',
      Some ''LRU'', Some ''ACTIVE'', Some ''SLAB'', Some ''WRITEBACK'', Some ''RECLAIM'',
      Some ''BUDDY'', Some ''MMAP'', Some ''ANON'', Some ''SWAPCACHE'', Some ''SWAPBACKED'',
      Some ''COMPOUND_HEAD'', Some ''COMPOUND_TAIL'', Some ''HUGE'', Some ''UNEVICTABLE'',
      Some ''HWPOISON'', Some ''NOPAGE'', Some ''KSM'', Some ''THP'',
      None, None, None, None, None,
      Some ''SOFT_DIRTY'', Some ''FILE_PAGE / SHARE_ANON'', Some ''SWAPPED'', Some ''PRESENT'']"

text \<open>\<^verbatim>\<open>return flags & (1 << testFlagShift);\<close> converted to \<^verbatim>\<open>bool\<close>.\<close>

definition isFlagSet :: "u32 \<Rightarrow> nat \<Rightarrow> bool" where
  "isFlagSet flags testFlagShift = (flags AND push_bit testFlagShift 1 \<noteq> 0)"

text \<open>
  \<^verbatim>\<open>printablePageFlags\<close>: the loop over \<open>i = 0 .. pageFlagCount - 1\<close> with
  \<^verbatim>\<open>assert(pageFlagNames[i])\<close> before each append (the assertion is compiled in unless
  \<^verbatim>\<open>NDEBUG\<close> is defined; the model is the build that checks it), then the removal of the
  last separator.
\<close>

datatype flagError = AssertionFailed

function printLoop :: "u32 \<Rightarrow> nat \<Rightarrow> string \<Rightarrow> flagError + string" where
  "printLoop flags i ret =
     (if i < pageFlagCount then
        (if isFlagSet flags i then
           (case pageFlagNames ! i of
              None \<Rightarrow> Inl AssertionFailed
            | Some name \<Rightarrow> printLoop flags (Suc i) (ret @ name @ '', ''))
         else printLoop flags (Suc i) ret)
      else Inr ret)"
  by pat_completeness auto
termination
  by (relation "measure (\<lambda>(flags, i, ret). pageFlagCount - i)") auto

declare printLoop.simps [simp del]

definition printablePageFlags :: "u32 \<Rightarrow> flagError + string" where
  "printablePageFlags flags =
     (case printLoop flags 0 [] of
        Inl e \<Rightarrow> Inl e
      | Inr ret \<Rightarrow> Inr (if 2 \<le> length ret then take (length ret - 2) ret else ret))"

text \<open>The spec's output: the names of the set flags in ascending bit order, joined
  by \<open>", "\<close>.\<close>

fun commaJoin :: "string list \<Rightarrow> string" where
  "commaJoin [] = []"
| "commaJoin [name] = name"
| "commaJoin (name # names) = name @ '', '' @ commaJoin names"

definition setFlagNames :: "u32 \<Rightarrow> string list" where
  "setFlagNames flags =
     map (\<lambda>i. the (pageFlagNames ! i)) (filter (\<lambda>i. bit flags i) [0..<pageFlagCount])"

lemma isFlagSet_bit: "isFlagSet flags i = bit flags i"
  by (simp add: isFlagSet_def push_bit_of_1 and_exp_eq_0_iff_not_bit)

lemma unnamed_table:
  "list_all (\<lambda>i. (pageFlagNames ! i = None) = (23 \<le> i \<and> i \<le> 27)) [0..<pageFlagCount]"
  by code_simp

lemma unnamed_iff:
  assumes "i < pageFlagCount"
  shows "(pageFlagNames ! i = None) = (23 \<le> i \<and> i \<le> 27)"
  using unnamed_table assms by (simp add: list_all_iff)

lemma printLoop_unfold:
  assumes "i < pageFlagCount"
  shows "printLoop flags i ret =
     (if bit flags i then
        (case pageFlagNames ! i of
           None \<Rightarrow> Inl AssertionFailed
         | Some name \<Rightarrow> printLoop flags (Suc i) (ret @ name @ '', ''))
      else printLoop flags (Suc i) ret)"
  using assms by (subst printLoop.simps) (simp add: isFlagSet_bit)

lemma printLoop_end: "pageFlagCount \<le> i \<Longrightarrow> printLoop flags i ret = Inr ret"
  by (subst printLoop.simps) simp

lemma printLoop_named:
  assumes "\<forall>j. i \<le> j \<and> j < pageFlagCount \<and> bit flags j \<longrightarrow> pageFlagNames ! j \<noteq> None"
  shows "printLoop flags i ret =
     Inr (ret @ concat (map (\<lambda>j. the (pageFlagNames ! j) @ '', '')
                          (filter (\<lambda>j. bit flags j) [i..<pageFlagCount])))"
  using assms
proof (induction "pageFlagCount - i" arbitrary: i ret)
  case 0
  then show ?case by (simp add: printLoop_end)
next
  case (Suc n)
  then have i: "i < pageFlagCount" and n: "n = pageFlagCount - Suc i"
    by simp_all
  have rest: "\<forall>j. Suc i \<le> j \<and> j < pageFlagCount \<and> bit flags j \<longrightarrow> pageFlagNames ! j \<noteq> None"
    using Suc.prems by simp
  have upt: "[i..<pageFlagCount] = i # [Suc i..<pageFlagCount]"
    using i by (simp add: upt_conv_Cons)
  show ?case
  proof (cases "bit flags i")
    case True
    with Suc.prems i obtain name where name: "pageFlagNames ! i = Some name"
      by auto
    show ?thesis
      using True name Suc.hyps(1) [OF n rest]
      by (simp add: printLoop_unfold [OF i] upt)
  next
    case False
    then show ?thesis
      using Suc.hyps(1) [OF n rest]
      by (simp add: printLoop_unfold [OF i] upt)
  qed
qed

lemma printLoop_unnamed:
  assumes "i \<le> j" and "j < pageFlagCount" and "bit flags j" and "pageFlagNames ! j = None"
  shows "printLoop flags i ret = Inl AssertionFailed"
  using assms
proof (induction "j - i" arbitrary: i ret)
  case 0
  then have "i = j" by simp
  with 0 show ?case
    by (simp add: printLoop_unfold)
next
  case (Suc n)
  then have i: "i < pageFlagCount" and n: "n = j - Suc i" and le: "Suc i \<le> j"
    by simp_all
  note IH = Suc.hyps(1) [OF n le Suc.prems(2,3,4)]
  show ?case
    by (simp add: printLoop_unfold [OF i] IH split: option.split)
qed

lemma strip_separator:
  assumes "names \<noteq> []"
  shows "2 \<le> length (concat (map (\<lambda>name. name @ '', '') names)) \<and>
         take (length (concat (map (\<lambda>name. name @ '', '') names)) - 2)
              (concat (map (\<lambda>name. name @ '', '') names)) = commaJoin names"
  using assms
proof (induction names rule: commaJoin.induct)
  case 1
  then show ?case by simp
next
  case (2 name)
  show ?case by simp
next
  case (3 name v va)
  then show ?case by simp
qed

text \<open>
  Claim C9, as amended. For every 32-bit flag word: if none of the bits 23 to 27 is set,
  \<^verbatim>\<open>printablePageFlags\<close> returns the names of the set flags, in ascending bit order, joined
  by \<open>", "\<close>; if one of them is set, the assertion \<^verbatim>\<open>assert(pageFlagNames[i])\<close> fails.
\<close>

theorem printablePageFlags_result:
  "printablePageFlags flags =
     (if \<exists>i \<in> {23..27}. bit flags i then Inl AssertionFailed
      else Inr (commaJoin (setFlagNames flags)))"
proof (cases "\<exists>i \<in> {23..27}. bit flags i")
  case True
  then obtain j where j: "23 \<le> j" "j \<le> 27" "bit flags j"
    by auto
  then have "j < pageFlagCount"
    by (simp add: pageFlagCount_def)
  moreover from this j have "pageFlagNames ! j = None"
    by (simp add: unnamed_iff)
  ultimately have "printLoop flags 0 [] = Inl AssertionFailed"
    using j(3) by (intro printLoop_unnamed [of 0 j]) simp_all
  with True show ?thesis
    by (simp add: printablePageFlags_def)
next
  case False
  then have "\<forall>j. 0 \<le> j \<and> j < pageFlagCount \<and> bit flags j \<longrightarrow> pageFlagNames ! j \<noteq> None"
    by (auto simp: unnamed_iff)
  then have loop: "printLoop flags 0 [] =
      Inr (concat (map (\<lambda>name. name @ '', '') (setFlagNames flags)))"
    using printLoop_named [of 0 flags "[]"]
    by (simp add: setFlagNames_def comp_def)
  show ?thesis
  proof (cases "setFlagNames flags = []")
    case True
    with False loop show ?thesis
      by (simp add: printablePageFlags_def)
  next
    case nonempty: False
    from strip_separator [OF nonempty] False loop show ?thesis
      by (simp add: printablePageFlags_def)
  qed
qed

text \<open>Claim C9 as stated fails: with bit 23 set the assertion fails.\<close>

theorem reserved_bit_counterexample:
  "printablePageFlags 0x00800000 = Inl AssertionFailed"
  by code_simp

section \<open>MosaicWidget::updatePageInfo\<close>

subsection \<open>Tile colours\<close>

text \<open>
  The colours \<^verbatim>\<open>updatePageInfo\<close> paints with, named after its variables:
  \<^verbatim>\<open>colorGray\<close> is \<^verbatim>\<open>Qt::darkGray\<close>, \<^verbatim>\<open>colorGreen\<close> is \<^verbatim>\<open>Qt::green\<close>,
  \<^verbatim>\<open>colorGreenDark\<close> is \<^verbatim>\<open>Qt::darkGreen\<close>, \<^verbatim>\<open>colorMagentaLight\<close> is
  \<^verbatim>\<open>QColor(Qt::magenta).lighter(150)\<close>, \<^verbatim>\<open>colorRedDark\<close> is \<^verbatim>\<open>Qt::darkRed\<close>,
  \<^verbatim>\<open>colorCyan\<close> (gaps) is \<^verbatim>\<open>Qt::blue\<close>.
\<close>

datatype color =
  ColorWhite | ColorGray | ColorMagenta | ColorMagentaLight | ColorYellow
  | ColorCyan | ColorGreen | ColorGreenDark | ColorRedDark | ColorBlack

text \<open>Bit numbers of \<^verbatim>\<open>linux/kernel-page-flags.h\<close>, the positions of the same names in
  \<open>pageFlagNames\<close>.\<close>

definition KPF_MMAP :: nat where "KPF_MMAP = 11"
definition KPF_ANON :: nat where "KPF_ANON = 12"
definition KPF_NOPAGE :: nat where "KPF_NOPAGE = 20"
definition KPF_THP :: nat where "KPF_THP = 22"

text \<open>The colour chosen in the innermost loop for page \<open>iPage\<close> of a region, from
  \<^verbatim>\<open>region->combinedFlags[iPage]\<close> and \<^verbatim>\<open>region->useCounts[iPage]\<close>.\<close>

definition tileColor :: "u32 \<Rightarrow> u32 \<Rightarrow> color" where
  "tileColor flags useCount =
     (if \<not> (flags AND push_bit 31 1 \<noteq> 0) then ColorGray
      else if flags AND push_bit KPF_MMAP 1 \<noteq> 0 \<and> \<not> (flags AND push_bit KPF_ANON 1 \<noteq> 0)
        then (if useCount > 1 then ColorGreen else ColorGreenDark)
      else if flags AND push_bit KPF_THP 1 \<noteq> 0 then ColorMagentaLight
      else if useCount = 1 then ColorMagenta
      else if useCount > 1 then ColorYellow
      else if flags AND push_bit KPF_NOPAGE 1 \<noteq> 0 then ColorRedDark
      else ColorWhite)"

text \<open>
  The colours of the pages of one region in painting order: the loop
  \<^verbatim>\<open>while (iPage < region->useCounts.size())\<close> without its row and column bookkeeping.
  A flag vector shorter than the use counts is read out of range (\<open>None\<close>).
\<close>

function paintPages :: "MappedRegion \<Rightarrow> nat \<Rightarrow> color list \<Rightarrow> color list option" where
  "paintPages region iPage painted =
     (if iPage < length (useCounts region) then
        (if iPage < length (combinedFlags region) then
           paintPages region (Suc iPage)
             (painted @ [tileColor (combinedFlags region ! iPage) (useCounts region ! iPage)])
         else None)
      else Some painted)"
  by pat_completeness auto
termination
  by (relation "measure (\<lambda>(region, iPage, painted). length (useCounts region) - iPage)") auto

declare paintPages.simps [simp del]

definition regionColors :: "MappedRegion \<Rightarrow> color list option" where
  "regionColors region = paintPages region 0 []"

text \<open>The spec's precedence list, first match wins.\<close>

fun firstMatch :: "(bool \<times> 'a) list \<Rightarrow> 'a \<Rightarrow> 'a" where
  "firstMatch [] otherwise = otherwise"
| "firstMatch ((condition, result) # rules) otherwise =
     (if condition then result else firstMatch rules otherwise)"

definition classifyPage :: "u32 \<Rightarrow> u32 \<Rightarrow> color" where
  "classifyPage flags useCount =
     firstMatch
       [(\<not> bit flags 31, ColorGray),
        (bit flags 11 \<and> \<not> bit flags 12 \<and> unat useCount \<le> 1, ColorGreenDark),
        (bit flags 11 \<and> \<not> bit flags 12 \<and> 1 < unat useCount, ColorGreen),
        (bit flags 22, ColorMagentaLight),
        (unat useCount = 1, ColorMagenta),
        (1 < unat useCount, ColorYellow),
        (bit flags 20, ColorRedDark)]
       ColorWhite"

lemma mask_test: "(flags AND push_bit n 1 \<noteq> 0) = bit flags n" for flags :: u32
  by (simp add: push_bit_of_1 and_exp_eq_0_iff_not_bit)

lemma useCount_tests:
  fixes useCount :: u32
  shows "(1 < useCount) = (1 < unat useCount)" and "(useCount = 1) = (unat useCount = 1)"
  by (simp_all add: word_less_nat_alt word_unat_eq_iff [of useCount 1])

lemma precedence_chain:
  fixes n :: nat
  shows "(if \<not> present then ColorGray
      else if mmap \<and> \<not> anon then (if 1 < n then ColorGreen else ColorGreenDark)
      else if thp then ColorMagentaLight
      else if n = 1 then ColorMagenta
      else if 1 < n then ColorYellow
      else if nopage then ColorRedDark
      else ColorWhite) =
     firstMatch
       [(\<not> present, ColorGray),
        (mmap \<and> \<not> anon \<and> n \<le> 1, ColorGreenDark),
        (mmap \<and> \<not> anon \<and> 1 < n, ColorGreen),
        (thp, ColorMagentaLight),
        (n = 1, ColorMagenta),
        (1 < n, ColorYellow),
        (nopage, ColorRedDark)]
       ColorWhite"
  by auto

lemma tileColor_classify: "tileColor flags useCount = classifyPage flags useCount"
  unfolding tileColor_def classifyPage_def KPF_MMAP_def KPF_ANON_def KPF_THP_def
    KPF_NOPAGE_def mask_test useCount_tests not_not
  by (rule precedence_chain)

lemma paintPages_short:
  assumes "length (combinedFlags region) < length (useCounts region)"
    and "iPage \<le> length (combinedFlags region)"
  shows "paintPages region iPage painted = None"
  using assms
proof (induction "length (combinedFlags region) - iPage" arbitrary: iPage painted)
  case 0
  then show ?case
    by (subst paintPages.simps) simp
next
  case (Suc n)
  then have "paintPages region (Suc iPage) (painted @
      [tileColor (combinedFlags region ! iPage) (useCounts region ! iPage)]) = None"
    by simp
  with Suc.hyps(2) Suc.prems show ?case
    by (subst paintPages.simps) simp
qed

lemma paintPages_all:
  assumes "length (useCounts region) \<le> length (combinedFlags region)"
    and "iPage \<le> length (useCounts region)"
  shows "paintPages region iPage painted =
     Some (painted @ map (\<lambda>i. classifyPage (combinedFlags region ! i) (useCounts region ! i))
                       [iPage..<length (useCounts region)])"
  using assms
proof (induction "length (useCounts region) - iPage" arbitrary: iPage painted)
  case 0
  then show ?case
    by (subst paintPages.simps) simp
next
  case (Suc n)
  then have less: "iPage < length (useCounts region)"
    by simp
  have "paintPages region (Suc iPage) (painted @
      [tileColor (combinedFlags region ! iPage) (useCounts region ! iPage)]) =
    Some ((painted @ [tileColor (combinedFlags region ! iPage) (useCounts region ! iPage)]) @
      map (\<lambda>i. classifyPage (combinedFlags region ! i) (useCounts region ! i))
        [Suc iPage..<length (useCounts region)])"
    using Suc.hyps(2) Suc.prems less by (intro Suc.hyps(1)) simp_all
  with less Suc.prems(1) show ?case
    by (subst paintPages.simps) (simp add: upt_conv_Cons tileColor_classify)
qed

text \<open>
  Claim C8. The colour of every page follows the precedence of the spec, first match
  wins, on the page's flag word and use count: not present (bit 31 clear) is gray;
  mmap-backed (bit 11) and not anonymous (bit 12) is dark green for a use count of at
  most 1 and green above 1; transparent huge page (bit 22) is light magenta whatever the
  use count; use count 1 is magenta; use count above 1 is yellow; no-page (bit 20) is
  dark red; otherwise white. The pages of a region are painted in order, each with that
  colour.
\<close>

theorem page_classification:
  "tileColor flags useCount = classifyPage flags useCount \<and>
   regionColors region =
     (if length (useCounts region) \<le> length (combinedFlags region)
      then Some (map (\<lambda>i. classifyPage (combinedFlags region ! i) (useCounts region ! i))
                  [0..<length (useCounts region)])
      else None)"
  using paintPages_all [of region 0 "[]"] paintPages_short [of region 0 "[]"]
  by (simp add: tileColor_classify regionColors_def)

subsection \<open>Large regions\<close>

text \<open>
  \<^verbatim>\<open>static const quint64 maxAllowedGap = 64 * PageInfo::pageSize;\<close> and the scan
  \<^verbatim>\<open>for (const MappedRegion &r : regions)\<close> that starts from
  \<^verbatim>\<open>make_pair(regions.front().start, regions.front().end)\<close>; the sum
  \<^verbatim>\<open>largeRegion.second + maxAllowedGap\<close> is a \<^verbatim>\<open>quint64\<close> and wraps. An empty region
  list returns before the scan.
\<close>

definition maxAllowedGap :: u64 where
  "maxAllowedGap = 64 * of_nat pageSize"

fun coalesceLoop ::
  "u64 \<times> u64 \<Rightarrow> MappedRegion list \<Rightarrow> (u64 \<times> u64) list \<Rightarrow> (u64 \<times> u64) list" where
  "coalesceLoop largeRegion [] largeRegions = largeRegions @ [largeRegion]"
| "coalesceLoop largeRegion (r # rs) largeRegions =
     (if start r > snd largeRegion + maxAllowedGap
      then coalesceLoop (start r, end_addr r) rs (largeRegions @ [largeRegion])
      else coalesceLoop (fst largeRegion, end_addr r) rs largeRegions)"

definition largeRegionsOf :: "MappedRegion list \<Rightarrow> (u64 \<times> u64) list" where
  "largeRegionsOf regions =
     (case regions of
        [] \<Rightarrow> []
      | front # _ \<Rightarrow> coalesceLoop (start front, end_addr front) regions [])"

text \<open>
  The first assertion of \<^verbatim>\<open>MosaicWidget::updatePageInfo\<close> (debug builds):
  \<^verbatim>\<open>assert(mappedRegion.end >= mappedRegion.start); // == unfortunately happens sometimes\<close>
\<close>

definition regionEndsAsserted :: "MappedRegion list \<Rightarrow> bool" where
  "regionEndsAsserted regions = list_all (\<lambda>mappedRegion. start mappedRegion \<le> end_addr mappedRegion) regions"

text \<open>The second assertion of \<^verbatim>\<open>updatePageInfo\<close>:
  \<^verbatim>\<open>assert(regions[i].start >= regions[i - 1].end)\<close> for every \<open>i \<ge> 1\<close>.\<close>

fun regionsOrdered :: "MappedRegion list \<Rightarrow> bool" where
  "regionsOrdered [] = True"
| "regionsOrdered [r] = True"
| "regionsOrdered (r # r' # rs) = (end_addr r \<le> start r' \<and> regionsOrdered (r' # rs))"

text \<open>
  The coalescing of the spec, on addresses as numbers: scan the regions in order; a new
  large region starts whenever the gap from the previous region's end to the next
  region's start exceeds the tolerance of 64 pages, otherwise the current large region's
  end is extended.
\<close>

definition gapTolerancePages :: nat where
  "gapTolerancePages = 64"

fun coalesceSpec :: "nat \<times> nat \<Rightarrow> (nat \<times> nat) list \<Rightarrow> (nat \<times> nat) list" where
  "coalesceSpec current [] = [current]"
| "coalesceSpec current (next # rest) =
     (if fst next - snd current > gapTolerancePages * pageSize
      then current # coalesceSpec next rest
      else coalesceSpec (fst current, snd next) rest)"

definition largeRegionsSpec :: "(nat \<times> nat) list \<Rightarrow> (nat \<times> nat) list" where
  "largeRegionsSpec spans =
     (case spans of [] \<Rightarrow> [] | first # rest \<Rightarrow> coalesceSpec first rest)"

definition spanOf :: "MappedRegion \<Rightarrow> nat \<times> nat" where
  "spanOf r = (unat (start r), unat (end_addr r))"

definition spanNat :: "u64 \<times> u64 \<Rightarrow> nat \<times> nat" where
  "spanNat largeRegion = (unat (fst largeRegion), unat (snd largeRegion))"

text \<open>No region ends within 64 pages of the top of the 64-bit address space.\<close>

definition noWrap :: "MappedRegion list \<Rightarrow> bool" where
  "noWrap regions =
     list_all (\<lambda>r. unat (end_addr r) + gapTolerancePages * pageSize < 2 ^ 64) regions"

definition mkRegion :: "u64 \<Rightarrow> u64 \<Rightarrow> MappedRegion" where
  "mkRegion s e =
     \<lparr>start = s, end_addr = e, backingFile = [], useCounts = [], combinedFlags = []\<rparr>"

text \<open>Two one-page regions 64 pages apart, two 65 pages apart, and two regions one
  page apart that end within 64 pages of \<open>2^64\<close>.\<close>

definition exApart64 :: "MappedRegion list" where
  "exApart64 = [mkRegion 0x1000 0x2000, mkRegion 0x42000 0x43000]"

definition exApart65 :: "MappedRegion list" where
  "exApart65 = [mkRegion 0x1000 0x2000, mkRegion 0x43000 0x44000]"

definition exTop :: "MappedRegion list" where
  "exTop = [mkRegion 0xFFFFFFFFFFFE0000 0xFFFFFFFFFFFE1000,
            mkRegion 0xFFFFFFFFFFFE2000 0xFFFFFFFFFFFE3000]"

lemma gap_test:
  fixes s e :: u64
  assumes "unat e + gapTolerancePages * pageSize < 2 ^ 64"
  shows "(s > e + maxAllowedGap) = (unat s - unat e > gapTolerancePages * pageSize)"
proof -
  have "unat (e + maxAllowedGap) = unat e + gapTolerancePages * pageSize"
    using assms
    by (simp add: maxAllowedGap_def gapTolerancePages_def pageSize_def unat_word_ariths)
  then show ?thesis
    by (simp add: word_less_nat_alt less_diff_conv add.commute)
qed

lemma coalesceLoop_spec:
  assumes "unat (snd largeRegion) + gapTolerancePages * pageSize < 2 ^ 64"
    and "noWrap rs"
  shows "map spanNat (coalesceLoop largeRegion rs largeRegions) =
         map spanNat largeRegions @ coalesceSpec (spanNat largeRegion) (map spanOf rs)"
  using assms
proof (induction rs arbitrary: largeRegion largeRegions)
  case Nil
  then show ?case by simp
next
  case (Cons r rs)
  from Cons.prems(2) have r: "unat (end_addr r) + gapTolerancePages * pageSize < 2 ^ 64"
    and rs: "noWrap rs"
    by (simp_all add: noWrap_def)
  note test = gap_test [OF Cons.prems(1), of "start r"]
  show ?case
  proof (cases "start r > snd largeRegion + maxAllowedGap")
    case True
    with test Cons.IH [of "(start r, end_addr r)" "largeRegions @ [largeRegion]"] r rs
    show ?thesis
      by (simp add: spanNat_def spanOf_def)
  next
    case False
    with test Cons.IH [of "(fst largeRegion, end_addr r)" largeRegions] r rs
    show ?thesis
      by (simp add: spanNat_def spanOf_def)
  qed
qed

lemma largeRegionsOf_front:
  assumes "start front \<le> end_addr front"
    and "unat (end_addr front) + gapTolerancePages * pageSize < 2 ^ 64"
  shows "largeRegionsOf (front # rest) = coalesceLoop (start front, end_addr front) rest []"
proof -
  have "\<not> start front > end_addr front + maxAllowedGap"
    using gap_test [OF assms(2), of "start front"] assms(1)
    by (simp add: word_le_nat_alt)
  then show ?thesis
    by (simp add: largeRegionsOf_def)
qed

lemma largeRegionsOf_spec:
  assumes "regionEndsAsserted regions" and "noWrap regions"
  shows "map spanNat (largeRegionsOf regions) = largeRegionsSpec (map spanOf regions)"
proof (cases regions)
  case Nil
  then show ?thesis
    by (simp add: largeRegionsOf_def largeRegionsSpec_def)
next
  case (Cons front rest)
  with assms have front: "start front \<le> end_addr front"
    "unat (end_addr front) + gapTolerancePages * pageSize < 2 ^ 64" and rest: "noWrap rest"
    by (simp_all add: regionEndsAsserted_def noWrap_def)
  have "map spanNat (largeRegionsOf regions) =
      coalesceSpec (spanNat (start front, end_addr front)) (map spanOf rest)"
    using coalesceLoop_spec [of "(start front, end_addr front)" rest "[]"] front(2) rest
    by (simp add: Cons largeRegionsOf_front [OF front])
  then show ?thesis
    by (simp add: Cons largeRegionsSpec_def spanNat_def spanOf_def)
qed

lemma two_regions:
  assumes "start r1 \<le> end_addr r1"
    and "unat (start r2) = unat (end_addr r1) + k * pageSize" and "gapTolerancePages \<le> k"
  shows "largeRegionsOf [r1, r2] =
     (if gapTolerancePages < k then [(start r1, end_addr r1), (start r2, end_addr r2)]
      else [(start r1, end_addr r2)])"
proof -
  have "unat (start r2) < 2 ^ 64"
    using unsigned_less [of "start r2", where 'a = nat] by simp
  moreover have "gapTolerancePages * pageSize \<le> k * pageSize"
    using assms(3) by (rule mult_le_mono1)
  ultimately have fit: "unat (end_addr r1) + gapTolerancePages * pageSize < 2 ^ 64"
    unfolding assms(2) by linarith
  have "(start r2 > end_addr r1 + maxAllowedGap) = (gapTolerancePages < k)"
    using gap_test [OF fit, of "start r2"] assms(2)
    by (simp add: pageSize_def)
  then show ?thesis
    by (simp add: largeRegionsOf_front [OF assms(1) fit])
qed

text \<open>
  Claim C5, as amended. For every region sequence that passes the assertion
  \<open>end \<ge> start\<close> and in which no region ends within 64 pages of \<open>2^64\<close>, the scan
  yields the large regions of the spec: it splits exactly where the gap from the previous
  region's end to the next region's start exceeds 64 pages. Two regions exactly 65 pages
  apart give two large regions, two regions exactly 64 pages apart give one, wherever
  they lie.
\<close>

theorem coalesce_gap_tolerance:
  "(regionEndsAsserted regions \<and> noWrap regions \<longrightarrow>
      map spanNat (largeRegionsOf regions) = largeRegionsSpec (map spanOf regions)) \<and>
   (start r1 \<le> end_addr r1 \<and>
    unat (start r2) = unat (end_addr r1) + (gapTolerancePages + 1) * pageSize \<longrightarrow>
      largeRegionsOf [r1, r2] = [(start r1, end_addr r1), (start r2, end_addr r2)]) \<and>
   (start r1 \<le> end_addr r1 \<and>
    unat (start r2) = unat (end_addr r1) + gapTolerancePages * pageSize \<longrightarrow>
      largeRegionsOf [r1, r2] = [(start r1, end_addr r2)])"
  using largeRegionsOf_spec [of regions]
    two_regions [of r1 r2 "gapTolerancePages + 1"] two_regions [of r1 r2 gapTolerancePages]
  by simp

lemmas layout_eval =
  largeRegionsOf_def largeRegionsSpec_def spanOf_def spanNat_def mkRegion_def
  gapTolerancePages_def pageSize_def maxAllowedGap_def regionEndsAsserted_def noWrap_def

theorem coalesce_gap_tolerance_witness:
  "regionEndsAsserted exApart65 \<and> noWrap exApart65
   \<and> largeRegionsSpec (map spanOf exApart65) = [(0x1000, 0x2000), (0x43000, 0x44000)]
   \<and> map spanNat (largeRegionsOf exApart65) = [(0x1000, 0x2000), (0x43000, 0x44000)]
   \<and> unat (0x43000 :: u64) = unat (0x2000 :: u64) + (gapTolerancePages + 1) * pageSize
   \<and> largeRegionsOf exApart65 = [(0x1000, 0x2000), (0x43000, 0x44000)]
   \<and> regionEndsAsserted exApart64 \<and> noWrap exApart64
   \<and> largeRegionsSpec (map spanOf exApart64) = [(0x1000, 0x43000)]
   \<and> map spanNat (largeRegionsOf exApart64) = [(0x1000, 0x43000)]
   \<and> unat (0x42000 :: u64) = unat (0x2000 :: u64) + gapTolerancePages * pageSize
   \<and> largeRegionsOf exApart64 = [(0x1000, 0x43000)]"
proof -
  let ?a = "mkRegion 0x1000 0x2000" and ?b65 = "mkRegion 0x43000 0x44000"
    and ?b64 = "mkRegion 0x42000 0x43000"
  have a65: "regionEndsAsserted exApart65" and n65: "noWrap exApart65"
    and a64: "regionEndsAsserted exApart64" and n64: "noWrap exApart64"
    by (simp_all add: exApart65_def exApart64_def layout_eval)
  have s65: "largeRegionsSpec (map spanOf exApart65) = [(0x1000, 0x2000), (0x43000, 0x44000)]"
    and s64: "largeRegionsSpec (map spanOf exApart64) = [(0x1000, 0x43000)]"
    by (simp_all add: exApart65_def exApart64_def layout_eval)
  have g65: "unat (0x43000 :: u64) = unat (0x2000 :: u64) + (gapTolerancePages + 1) * pageSize"
    and g64: "unat (0x42000 :: u64) = unat (0x2000 :: u64) + gapTolerancePages * pageSize"
    by (simp_all add: layout_eval)
  have le: "start ?a \<le> end_addr ?a"
    by (simp add: mkRegion_def)
  note t65 = coalesce_gap_tolerance [of exApart65 ?a ?b65]
  note t64 = coalesce_gap_tolerance [of exApart64 ?a ?b64]
  have m65: "map spanNat (largeRegionsOf exApart65) = [(0x1000, 0x2000), (0x43000, 0x44000)]"
    using t65 [THEN conjunct1] a65 n65 s65 by simp
  have m64: "map spanNat (largeRegionsOf exApart64) = [(0x1000, 0x43000)]"
    using t64 [THEN conjunct1] a64 n64 s64 by simp
  have l65: "largeRegionsOf exApart65 = [(0x1000, 0x2000), (0x43000, 0x44000)]"
    using t65 [THEN conjunct2, THEN conjunct1] le g65
    by (simp add: exApart65_def mkRegion_def)
  have l64: "largeRegionsOf exApart64 = [(0x1000, 0x43000)]"
    using t64 [THEN conjunct2, THEN conjunct2] le g64
    by (simp add: exApart64_def mkRegion_def)
  show ?thesis
    by (intro conjI a65 n65 s65 m65 g65 l65 a64 n64 s64 m64 g64 l64)
qed

text \<open>
  Claim C5 as stated fails: the two regions of \<open>exTop\<close> are ordered, do not overlap and
  lie one page apart, so the spec coalesces them into one large region; the scan, whose
  sum \<open>largeRegion.second + maxAllowedGap\<close> wraps, yields three.
\<close>

theorem coalesce_wrap_counterexample:
  "regionEndsAsserted exTop \<and> regionsOrdered exTop
   \<and> map spanOf exTop = [(0xFFFFFFFFFFFE0000, 0xFFFFFFFFFFFE1000),
                           (0xFFFFFFFFFFFE2000, 0xFFFFFFFFFFFE3000)]
   \<and> (0xFFFFFFFFFFFE2000 :: nat) - 0xFFFFFFFFFFFE1000 = 1 * pageSize
   \<and> largeRegionsSpec (map spanOf exTop) = [(0xFFFFFFFFFFFE0000, 0xFFFFFFFFFFFE3000)]
   \<and> largeRegionsOf exTop =
        [(0xFFFFFFFFFFFE0000, 0xFFFFFFFFFFFE1000),
         (0xFFFFFFFFFFFE0000, 0xFFFFFFFFFFFE1000),
         (0xFFFFFFFFFFFE2000, 0xFFFFFFFFFFFE3000)]
   \<and> map spanNat (largeRegionsOf exTop) \<noteq> largeRegionsSpec (map spanOf exTop)"
  by (simp add: exTop_def layout_eval)

subsection \<open>Row count\<close>

text \<open>
  \<^verbatim>\<open>uint rowCount = (largeRegions.size() - 1) * tilesPerSeparator;\<close> and the loop
  \<^verbatim>\<open>rowCount += ((largeRegion.second - largeRegion.first) / PageInfo::pageSize +
  (s_columnCount - 1)) / s_columnCount;\<close> The right-hand sides are computed in 64 bits
  and stored in the 32-bit \<^verbatim>\<open>rowCount\<close>.
\<close>

definition s_columnCount :: u32 where
  "s_columnCount = 512"

definition tilesPerSeparator :: u32 where
  "tilesPerSeparator = 2"

fun rowCountLoop :: "u32 \<Rightarrow> (u64 \<times> u64) list \<Rightarrow> u32" where
  "rowCountLoop rowCount [] = rowCount"
| "rowCountLoop rowCount (largeRegion # largeRegions) =
     rowCountLoop
       (ucast ((ucast rowCount :: u64) +
          ((snd largeRegion - fst largeRegion) div of_nat pageSize
             + (ucast s_columnCount - 1)) div ucast s_columnCount))
       largeRegions"

definition rowCountOf :: "(u64 \<times> u64) list \<Rightarrow> u32" where
  "rowCountOf largeRegions =
     rowCountLoop (ucast ((of_nat (length largeRegions) - 1 :: u64) * ucast tilesPerSeparator))
       largeRegions"

text \<open>The spec's row count: \<open>ceil(pagesInSpan / columnCount)\<close> rows for each large
  region and two separator rows between consecutive large regions.\<close>

definition pagesInSpan :: "u64 \<times> u64 \<Rightarrow> nat" where
  "pagesInSpan largeRegion = unat (snd largeRegion - fst largeRegion) div pageSize"

definition ceilDiv :: "nat \<Rightarrow> nat \<Rightarrow> nat" where
  "ceilDiv p c = (if c dvd p then p div c else p div c + 1)"

definition columnCount :: nat where
  "columnCount = 512"

definition rowsSpec :: "(u64 \<times> u64) list \<Rightarrow> nat" where
  "rowsSpec largeRegions =
     sum_list (map (\<lambda>largeRegion. ceilDiv (pagesInSpan largeRegion) columnCount) largeRegions)
       + 2 * (length largeRegions - 1)"


lemma ceilDiv_formula:
  assumes "0 < c"
  shows "(p + (c - 1)) div c = ceilDiv p c"
proof -
  have split: "p div c * c + p mod c = p"
    by (rule div_mult_mod_eq)
  have dist: "(p div c + 1) * c = p div c * c + c"
    by simp
  show ?thesis
  proof (cases "c dvd p")
    case True
    then have "p mod c = 0"
      by (simp add: dvd_eq_mod_eq_0)
    with split have "p + (c - 1) = (c - 1) + p div c * c"
      by linarith
    then have "(p + (c - 1)) div c = p div c + (c - 1) div c"
      using assms by (simp only: div_mult_self1)
    with True assms show ?thesis
      by (simp add: ceilDiv_def)
  next
    case False
    then have pos: "0 < p mod c"
      by (simp add: dvd_eq_mod_eq_0)
    have small: "p mod c - 1 < c"
      using assms by (simp add: less_imp_diff_less)
    from split dist pos assms have "p + (c - 1) = (p mod c - 1) + (p div c + 1) * c"
      by linarith
    then have "(p + (c - 1)) div c = (p div c + 1) + (p mod c - 1) div c"
      using assms by (simp only: div_mult_self1)
    with small False show ?thesis
      by (simp add: ceilDiv_def)
  qed
qed

lemma unat_widen32:
  fixes w :: u32
  shows "unat (ucast w :: u64) = unat w"
proof -
  have "unat w < 4294967296"
    using unsigned_less [of w, where 'a = nat] by simp
  then have "take_bit 64 (unat w) = unat w"
    by (simp add: take_bit_nat_eq_self)
  then show ?thesis
    by (simp add: unsigned_ucast_eq)
qed

lemma narrow_of_nat:
  fixes x :: u64
  shows "(ucast x :: u32) = of_nat (unat x)"
  by simp

lemma of_nat_mod64: "(of_nat (n mod 2 ^ 64) :: u32) = of_nat n"
proof -
  have "(n mod 2 ^ 64) mod 2 ^ 32 = n mod 2 ^ 32"
    by (rule mod_mod_cancel) simp
  then show ?thesis
    by (simp add: word_of_nat_eq_iff take_bit_eq_mod)
qed

lemma unat_rows:
  fixes d :: u64
  shows "unat ((d div of_nat pageSize + (ucast s_columnCount - 1)) div ucast s_columnCount) =
         ceilDiv (unat d div pageSize) columnCount"
proof -
  have d: "unat d < 2 ^ 64"
    using unsigned_less [of d, where 'a = nat] by simp
  have q: "unat (d div 4096) = unat d div 4096"
    by (simp add: unat_div)
  have "unat d div 4096 < 2 ^ 52"
    using d by simp
  then have "unat (d div 4096 + 511) = unat d div 4096 + 511"
    using q by (simp add: unat_word_ariths)
  then have "unat ((d div 4096 + 511) div 512) = (unat d div 4096 + 511) div 512"
    by (simp add: unat_div)
  then show ?thesis
    using ceilDiv_formula [of 512 "unat d div 4096"]
    by (simp add: pageSize_def s_columnCount_def columnCount_def)
qed

lemma narrow_add:
  fixes rowCount :: u32 and x :: u64
  shows "(ucast ((ucast rowCount :: u64) + x) :: u32) = rowCount + of_nat (unat x)"
proof -
  have "unat ((ucast rowCount :: u64) + x) = (unat rowCount + unat x) mod 2 ^ 64"
    by (simp add: unat_word_ariths unat_widen32)
  then have "(ucast ((ucast rowCount :: u64) + x) :: u32) =
      of_nat ((unat rowCount + unat x) mod 2 ^ 64)"
    by (simp only: narrow_of_nat)
  also have "\<dots> = of_nat (unat rowCount + unat x)"
    by (rule of_nat_mod64)
  finally show ?thesis
    by simp
qed

lemma rowCountLoop_sum:
  "rowCountLoop rowCount largeRegions =
     rowCount + of_nat (sum_list (map (\<lambda>largeRegion.
        ceilDiv (pagesInSpan largeRegion) columnCount) largeRegions))"
proof (induction largeRegions arbitrary: rowCount)
  case Nil
  show ?case by simp
next
  case (Cons largeRegion largeRegions)
  show ?case
    by (simp only: rowCountLoop.simps narrow_add unat_rows Cons.IH)
       (simp add: pagesInSpan_def)
qed

lemma separators_of_nat:
  assumes "largeRegions \<noteq> []"
  shows "(ucast ((of_nat (length largeRegions) - 1 :: u64) * ucast tilesPerSeparator) :: u32) =
         of_nat (2 * (length largeRegions - 1))"
proof -
  from assms have "1 \<le> length largeRegions"
    by (cases largeRegions) simp_all
  then have "(of_nat (length largeRegions) - 1 :: u64) = of_nat (length largeRegions - 1)"
    by simp
  then have "(of_nat (length largeRegions) - 1 :: u64) * ucast tilesPerSeparator =
      of_nat (2 * (length largeRegions - 1))"
    by (simp add: tilesPerSeparator_def)
  then have "(ucast ((of_nat (length largeRegions) - 1 :: u64) * ucast tilesPerSeparator) :: u32)
      = of_nat ((2 * (length largeRegions - 1)) mod 2 ^ 64)"
    by (simp only: narrow_of_nat unat_of_nat) simp
  then show ?thesis
    by (simp only: of_nat_mod64)
qed

text \<open>
  Claim C6, as amended. For every non-empty list of large regions the computed row
  count, a 32-bit unsigned integer, equals modulo \<open>2^32\<close> the sum over the large regions
  of \<open>ceil(pagesInSpan / 512)\<close> plus 2 separator rows between each pair of consecutive
  large regions (none after the last); the two are equal whenever that sum is below
  \<open>2^32\<close>.
\<close>

theorem rowCount_sum:
  assumes "largeRegions \<noteq> []"
  shows "unat (rowCountOf largeRegions) = rowsSpec largeRegions mod 2 ^ 32"
proof -
  have "rowCountOf largeRegions = of_nat (rowsSpec largeRegions)"
    by (simp add: rowCountOf_def rowCountLoop_sum separators_of_nat [OF assms] rowsSpec_def)
  then show ?thesis
    by (simp add: unat_of_nat)
qed

lemmas rows_eval =
  rowCountOf_def rowsSpec_def pagesInSpan_def ceilDiv_def columnCount_def pageSize_def
  s_columnCount_def tilesPerSeparator_def

theorem rowCount_sum_witness:
  "[(0x1000, 0x201000) :: u64 \<times> u64] \<noteq> []
   \<and> pagesInSpan (0x1000, 0x201000) = 512
   \<and> rowsSpec [(0x1000, 0x201000)] = 1
   \<and> unat (rowCountOf [(0x1000, 0x201000)]) = 1
   \<and> unat (rowCountOf [(0x1000, 0x201000), (0x400000, 0x401000)]) = 1 + 2 + 1"
proof -
  have p: "pagesInSpan (0x1000, 0x201000) = 512"
    by (simp add: rows_eval)
  have s1: "rowsSpec [(0x1000, 0x201000)] = 1"
    by (simp add: rows_eval)
  have s2: "rowsSpec [(0x1000, 0x201000), (0x400000, 0x401000)] = 4"
    by (simp add: rows_eval)
  have r1: "unat (rowCountOf [(0x1000, 0x201000)]) = 1"
    using rowCount_sum [of "[(0x1000, 0x201000)]"] by (simp add: s1)
  have r2: "unat (rowCountOf [(0x1000, 0x201000), (0x400000, 0x401000)]) = 1 + 2 + 1"
    using rowCount_sum [of "[(0x1000, 0x201000), (0x400000, 0x401000)]"] by (simp add: s2)
  show ?thesis
    using p s1 r1 r2 by simp
qed

text \<open>
  Claim C6 as stated fails: one large region of \<open>2^41\<close> pages needs \<open>2^32\<close> rows, and
  the computed row count is 0.
\<close>

theorem rowCount_wrap_counterexample:
  "pagesInSpan (0, 0x20000000000000) = 2199023255552
   \<and> rowsSpec [(0, 0x20000000000000)] = 4294967296
   \<and> rowCountOf [(0, 0x20000000000000)] = 0
   \<and> unat (rowCountOf [(0, 0x20000000000000)]) \<noteq> rowsSpec [(0, 0x20000000000000)]"
  by (simp add: rows_eval)

section \<open>Reverse lookup\<close>

subsection \<open>std::upper_bound\<close>

text \<open>
  \<^verbatim>\<open>std::upper_bound(first, last, value, comp)\<close> as the standard library implements it:
  a binary search that halves the length \<open>len\<close> of the range that starts at \<open>first\<close>,
  going left when \<^verbatim>\<open>comp(value, *middle)\<close> holds. \<open>cmp\<close> is \<^verbatim>\<open>comp(value, _)\<close>; the result
  is an index into the list.
\<close>

function upperBound :: "('a \<Rightarrow> bool) \<Rightarrow> 'a list \<Rightarrow> nat \<Rightarrow> nat \<Rightarrow> nat" where
  "upperBound cmp xs first len =
     (if 0 < len then
        (if cmp (xs ! (first + len div 2))
         then upperBound cmp xs first (len div 2)
         else upperBound cmp xs (first + len div 2 + 1) (len - len div 2 - 1))
      else first)"
  by pat_completeness auto
termination
  by (relation "measure (\<lambda>(cmp, xs, first, len). len)") auto

declare upperBound.simps [simp del]

lemma upperBound_partition:
  assumes "\<forall>i j. i \<le> j \<and> j < length xs \<and> cmp (xs ! i) \<longrightarrow> cmp (xs ! j)"
    and "first + len \<le> length xs"
  shows "first \<le> upperBound cmp xs first len \<and>
         upperBound cmp xs first len \<le> first + len \<and>
         (\<forall>i. first \<le> i \<and> i < upperBound cmp xs first len \<longrightarrow> \<not> cmp (xs ! i)) \<and>
         (\<forall>i. upperBound cmp xs first len \<le> i \<and> i < first + len \<longrightarrow> cmp (xs ! i))"
  using assms
proof (induction cmp xs first len rule: upperBound.induct)
  case (1 cmp xs first len)
  note mono = "1.prems"(1) and fits = "1.prems"(2)
  show ?case
  proof (cases "0 < len")
    case False
    then have "upperBound cmp xs first len = first"
      by (subst upperBound.simps) simp
    with False show ?thesis
      by auto
  next
    case True
    define middle where "middle = first + len div 2"
    have mid: "middle < first + len" "middle < length xs" "first \<le> middle"
      using True fits by (simp_all add: middle_def)
    show ?thesis
    proof (cases "cmp (xs ! middle)")
      case left: True
      define k where "k = upperBound cmp xs first (len div 2)"
      have eq: "upperBound cmp xs first len = k"
        using True left unfolding k_def middle_def by (subst upperBound.simps) simp
      have "first + len div 2 \<le> length xs"
        using fits by simp
      with "1.IH"(1) [OF True left [unfolded middle_def] mono]
      have IH: "first \<le> k" "k \<le> middle"
        "\<forall>i. first \<le> i \<and> i < k \<longrightarrow> \<not> cmp (xs ! i)"
        "\<forall>i. k \<le> i \<and> i < middle \<longrightarrow> cmp (xs ! i)"
        unfolding k_def middle_def by simp_all
      have upper: "cmp (xs ! i)" if "k \<le> i" "i < first + len" for i
      proof (cases "i < middle")
        case True
        with IH(4) that show ?thesis by simp
      next
        case False
        then have "middle \<le> i \<and> i < length xs \<and> cmp (xs ! middle)"
          using that fits left by simp
        with mono show ?thesis by blast
      qed
      from IH(1,2,3) mid(1) upper show ?thesis
        unfolding eq by simp
    next
      case right: False
      define k where "k = upperBound cmp xs (middle + 1) (len - len div 2 - 1)"
      have eq: "upperBound cmp xs first len = k"
        using True right unfolding k_def middle_def by (subst upperBound.simps) simp
      have bound: "middle + 1 + (len - len div 2 - 1) = first + len"
        using True by (simp add: middle_def)
      then have "first + len div 2 + 1 + (len - len div 2 - 1) \<le> length xs"
        using fits by (simp add: middle_def)
      with "1.IH"(2) [OF True right [unfolded middle_def] mono]
      have IH: "middle + 1 \<le> k" "k \<le> first + len"
        "\<forall>i. middle + 1 \<le> i \<and> i < k \<longrightarrow> \<not> cmp (xs ! i)"
        "\<forall>i. k \<le> i \<and> i < first + len \<longrightarrow> cmp (xs ! i)"
        unfolding k_def middle_def using bound [unfolded middle_def] by simp_all
      have lower: "\<not> cmp (xs ! i)" if "i < k" for i
      proof (cases "i \<le> middle")
        case True
        show ?thesis
        proof
          assume "cmp (xs ! i)"
          with True mid(2) have "i \<le> middle \<and> middle < length xs \<and> cmp (xs ! i)"
            by simp
          with mono have "cmp (xs ! middle)" by blast
          with right show False by simp
        qed
      next
        case False
        with IH(3) that show ?thesis by simp
      qed
      from IH(1,2,4) mid(3) lower show ?thesis
        unfolding eq by simp
    qed
  qed
qed

subsection \<open>The row index built by updatePageInfo\<close>

text \<open>
  The painting loop of \<^verbatim>\<open>updatePageInfo\<close>, reduced to what decides
  \<^verbatim>\<open>m_largeRegions\<close> and the assertions of the loop: the current \<open>row\<close>,
  \<open>column\<close> and \<open>iMappedRegion\<close>; the pixels are left out.
  \<open>fillTiles\<close> is the shape shared by the page loop
  \<^verbatim>\<open>while (iPage < region->useCounts.size())\<close> and the gap loop \<^verbatim>\<open>while (gapPages)\<close>: tiles
  are painted up to \<^verbatim>\<open>endColumn = qMin(column + remaining, s_columnCount)\<close>, and a full row
  moves to the next one. Both loops are entered with \<open>column < 512\<close>.
\<close>

function fillTiles :: "u32 \<times> nat \<Rightarrow> nat \<Rightarrow> u32 \<times> nat" where
  "fillTiles (row, column) pages =
     (if 0 < pages \<and> column < 512 then
        (if min 512 (column + pages) = 512
         then fillTiles (row + 1, 0) (pages - (min 512 (column + pages) - column))
         else fillTiles (row, min 512 (column + pages))
                (pages - (min 512 (column + pages) - column)))
      else (row, column))"
  by pat_completeness auto
termination
  by (relation "measure (\<lambda>(position, pages). pages)") auto

declare fillTiles.simps [simp del]

text \<open>
  \<^verbatim>\<open>assert(region->start + iPage * PageInfo::pageSize == region->end);\<close> after the page
  loop, which leaves \<open>iPage\<close> at \<^verbatim>\<open>region->useCounts.size()\<close>; the product and the sum
  are 64-bit.
\<close>

definition regionPagesAsserted :: "MappedRegion \<Rightarrow> bool" where
  "regionPagesAsserted region =
     (start region + of_nat (length (useCounts region)) * of_nat pageSize = end_addr region)"

text \<open>
  The gap after a region, once \<open>iMappedRegion\<close> has been incremented:
  \<^verbatim>\<open>size_t gapPages = column ? (s_columnCount - column) : 0;\<close>, replaced by the distance to
  the next region where that one starts below the end of the large region, under
  \<^verbatim>\<open>assert(regions[iMappedRegion].start >= region->end)\<close> (\<open>None\<close> where it fails).
\<close>

definition gapPagesOf :: "MappedRegion list \<Rightarrow> u64 \<Rightarrow> MappedRegion \<Rightarrow> nat \<Rightarrow> nat \<Rightarrow> nat option" where
  "gapPagesOf regions second region iMappedRegion column =
     (if iMappedRegion < length regions \<and> start (regions ! iMappedRegion) < second then
        (if start (regions ! iMappedRegion) \<ge> end_addr region
         then Some (unat ((start (regions ! iMappedRegion) - end_addr region) div of_nat pageSize))
         else None)
      else Some (if column \<noteq> 0 then 512 - column else 0))"

text \<open>
  The loop \<^verbatim>\<open>for ( ; region->end <= largeRegion.second; region = &regions[iMappedRegion])\<close>:
  \<^verbatim>\<open>assert(region->end >= region->start)\<close>, the pages of the region (its colours are
  \<open>regionColors\<close>, \<open>None\<close> where a flag is read out of range), the assertion on the page
  count, \<^verbatim>\<open>iMappedRegion++\<close>, the gap up to the next region of the same large region or
  else to the end of the row under \<^verbatim>\<open>assert(gapPages < s_columnCount)\<close>, and the
  \<^verbatim>\<open>break\<close> after the last region. \<open>None\<close> is a failed assertion or a read out of
  range. The assertions \<^verbatim>\<open>iMappedRegion < regions.size()\<close>,
  \<^verbatim>\<open>column <= s_columnCount\<close> and \<^verbatim>\<open>region->end <= largeRegion.second\<close> of the body
  hold by the loop condition and the \<^verbatim>\<open>break\<close>.
\<close>

function paintLargeRegion ::
  "MappedRegion list \<Rightarrow> u64 \<Rightarrow> nat \<Rightarrow> u32 \<times> nat \<Rightarrow> (nat \<times> u32 \<times> nat) option" where
  "paintLargeRegion regions second iMappedRegion position =
     (if iMappedRegion < length regions \<and> end_addr (regions ! iMappedRegion) \<le> second then
        (if \<not> end_addr (regions ! iMappedRegion) \<ge> start (regions ! iMappedRegion) then None
         else if regionColors (regions ! iMappedRegion) = None then None
         else if \<not> regionPagesAsserted (regions ! iMappedRegion) then None
         else
           (case gapPagesOf regions second (regions ! iMappedRegion) (Suc iMappedRegion)
                   (snd (fillTiles position (length (useCounts (regions ! iMappedRegion))))) of
              None \<Rightarrow> None
            | Some gapPages \<Rightarrow>
                if \<not> gapPages < 512 then None
                else if Suc iMappedRegion \<ge> length regions then
                  Some (Suc iMappedRegion,
                        fillTiles
                          (fillTiles position (length (useCounts (regions ! iMappedRegion))))
                          gapPages)
                else
                  paintLargeRegion regions second (Suc iMappedRegion)
                    (fillTiles
                       (fillTiles position (length (useCounts (regions ! iMappedRegion))))
                       gapPages)))
      else Some (iMappedRegion, position))"
  by pat_completeness auto
termination
  by (relation "measure (\<lambda>(regions, second, iMappedRegion, position).
        length regions - iMappedRegion)") auto

declare paintLargeRegion.simps [simp del]

text \<open>
  The loop over \<open>largeRegions\<close>: \<^verbatim>\<open>assert(iMappedRegion < regions.size())\<close>,
  \<^verbatim>\<open>m_largeRegions.push_back(make_pair(row, region->start))\<close>, the large region's tiles,
  \<^verbatim>\<open>assert(column == 0)\<close>, then \<^verbatim>\<open>row += tilesPerSeparator\<close>. \<open>None\<close> is a failed
  assertion.
\<close>

fun layoutLoop ::
  "MappedRegion list \<Rightarrow> (u64 \<times> u64) list \<Rightarrow> u32 \<Rightarrow> nat \<Rightarrow> (u32 \<times> u64) list
     \<Rightarrow> (u32 \<times> u64) list option" where
  "layoutLoop regions [] row iMappedRegion m_largeRegions = Some m_largeRegions"
| "layoutLoop regions (largeRegion # largeRegions) row iMappedRegion m_largeRegions =
     (if iMappedRegion < length regions then
        (case paintLargeRegion regions (snd largeRegion) iMappedRegion (row, 0) of
           None \<Rightarrow> None
         | Some painted \<Rightarrow>
             if snd (snd painted) = 0 then
               layoutLoop regions largeRegions (fst (snd painted) + tilesPerSeparator)
                 (fst painted) (m_largeRegions @ [(row, start (regions ! iMappedRegion))])
             else None)
      else None)"

text \<open>
  \<^verbatim>\<open>updatePageInfo\<close> as far as \<^verbatim>\<open>m_largeRegions\<close>: the early return on an empty
  snapshot, the two assertions on the regions, the large regions and the layout.
\<close>

definition rowIndexOf :: "MappedRegion list \<Rightarrow> (u32 \<times> u64) list option" where
  "rowIndexOf regions =
     (if regions = [] then Some []
      else if \<not> regionEndsAsserted regions then None
      else if \<not> regionsOrdered regions then None
      else layoutLoop regions (largeRegionsOf regions) 0 0 [])"

subsection \<open>Regions that updatePageInfo accepts\<close>

text \<open>
  Every region that the painting loop passes has met
  \<^verbatim>\<open>assert(region->start + iPage * PageInfo::pageSize == region->end)\<close>, and the loop
  stops at the end of the snapshot or at a region that ends beyond the large region.
\<close>

lemma paintLargeRegion_checked:
  "paintLargeRegion regions second i position = Some (i', position') \<Longrightarrow>
   i \<le> i' \<and> (\<forall>j. i \<le> j \<and> j < i' \<longrightarrow> regionPagesAsserted (regions ! j)) \<and>
   (length regions \<le> i' \<or> \<not> end_addr (regions ! i') \<le> second)"
proof (induction regions second i position rule: paintLargeRegion.induct)
  case (1 regions second iMappedRegion position)
  show ?case
  proof (cases "iMappedRegion < length regions \<and> end_addr (regions ! iMappedRegion) \<le> second")
    case False
    with "1.prems" show ?thesis
      by (subst (asm) paintLargeRegion.simps) auto
  next
    case True
    let ?region = "regions ! iMappedRegion"
    let ?filled = "fillTiles position (length (useCounts ?region))"
    from "1.prems" True obtain gapPages where
      ends: "start ?region \<le> end_addr ?region" and colors: "regionColors ?region \<noteq> None"
      and pages: "regionPagesAsserted ?region"
      and gap: "gapPagesOf regions second ?region (Suc iMappedRegion) (snd ?filled) = Some gapPages"
      and small: "gapPages < 512"
      and rest: "(if length regions \<le> Suc iMappedRegion
                  then Some (Suc iMappedRegion, fillTiles ?filled gapPages)
                  else paintLargeRegion regions second (Suc iMappedRegion)
                         (fillTiles ?filled gapPages)) = Some (i', position')"
      by (subst (asm) paintLargeRegion.simps) (auto split: if_splits option.splits)
    show ?thesis
    proof (cases "length regions \<le> Suc iMappedRegion")
      case last: True
      with rest have "i' = Suc iMappedRegion"
        by simp
      with last pages show ?thesis
        by (auto simp: less_Suc_eq)
    next
      case more: False
      with rest have "paintLargeRegion regions second (Suc iMappedRegion)
          (fillTiles ?filled gapPages) = Some (i', position')"
        by simp
      from "1.IH" [OF True _ _ _ gap _ more this] ends colors pages small
      have IH: "Suc iMappedRegion \<le> i'"
        "\<forall>j. Suc iMappedRegion \<le> j \<and> j < i' \<longrightarrow> regionPagesAsserted (regions ! j)"
        "length regions \<le> i' \<or> \<not> end_addr (regions ! i') \<le> second"
        by simp_all
      have "regionPagesAsserted (regions ! j)" if "iMappedRegion \<le> j" "j < i'" for j
      proof (cases "j = iMappedRegion")
        case True
        with pages show ?thesis by simp
      next
        case False
        with that IH(2) show ?thesis by simp
      qed
      with IH(1,3) show ?thesis
        by simp
    qed
  qed
qed


lemma layoutLoop_checked:
  assumes "layoutLoop regions largeRegions row i acc = Some idx" and "largeRegions \<noteq> []"
    and "\<forall>j < length regions. end_addr (regions ! j) \<le> snd (last largeRegions)"
  shows "\<forall>j. i \<le> j \<and> j < length regions \<longrightarrow> regionPagesAsserted (regions ! j)"
  using assms
proof (induction largeRegions arbitrary: row i acc)
  case Nil
  then show ?case by simp
next
  case (Cons largeRegion largeRegions)
  from Cons.prems(1) obtain i' position' where
    painted: "paintLargeRegion regions (snd largeRegion) i (row, 0) = Some (i', position')"
    and loop: "layoutLoop regions largeRegions (fst position' + tilesPerSeparator) i'
                 (acc @ [(row, start (regions ! i))]) = Some idx"
    by (auto split: if_splits option.splits)
  from paintLargeRegion_checked [OF painted]
  have le: "i \<le> i'"
    and checked: "\<forall>j. i \<le> j \<and> j < i' \<longrightarrow> regionPagesAsserted (regions ! j)"
    and stop: "length regions \<le> i' \<or> \<not> end_addr (regions ! i') \<le> snd largeRegion"
    by simp_all
  have later: "regionPagesAsserted (regions ! j)" if "i' \<le> j" "j < length regions" for j
  proof (cases "largeRegions = []")
    case True
    with Cons.prems(3) that have "end_addr (regions ! i') \<le> snd largeRegion"
      by simp
    with stop that show ?thesis
      by simp
  next
    case False
    with Cons.prems(3) have "\<forall>j < length regions. end_addr (regions ! j) \<le> snd (last largeRegions)"
      by simp
    from Cons.IH [OF loop False this] that show ?thesis
      by simp
  qed
  show ?case
  proof (intro allI impI)
    fix j assume "i \<le> j \<and> j < length regions"
    with checked later [of j] show "regionPagesAsserted (regions ! j)"
      by (cases "j < i'") simp_all
  qed
qed

lemma coalesceLoop_last:
  "coalesceLoop largeRegion rs largeRegions \<noteq> [] \<and>
   snd (last (coalesceLoop largeRegion rs largeRegions)) =
     (if rs = [] then snd largeRegion else end_addr (last rs))"
  by (induction rs arbitrary: largeRegion largeRegions) simp_all

lemma ordered_ends:
  assumes "regionEndsAsserted regions" and "regionsOrdered regions"
  shows "\<forall>r \<in> set regions. end_addr r \<le> end_addr (last regions)"
  using assms
proof (induction regions rule: regionsOrdered.induct)
  case 1
  then show ?case by simp
next
  case (2 r)
  then show ?case by simp
next
  case (3 r r' rs)
  then have IH: "\<forall>x \<in> set (r' # rs). end_addr x \<le> end_addr (last (r' # rs))"
    and "end_addr r \<le> start r'" and "start r' \<le> end_addr r'"
    by (simp_all add: regionEndsAsserted_def)
  then have "end_addr r \<le> end_addr r'"
    by simp
  moreover from IH have "end_addr r' \<le> end_addr (last (r' # rs))"
    by simp
  ultimately have "end_addr r \<le> end_addr (last (r' # rs))"
    by (rule order_trans)
  with IH show ?case
    by simp
qed

lemma rowIndexOf_checked:
  assumes "rowIndexOf regions = Some idx"
  shows "\<forall>r \<in> set regions. start r \<le> end_addr r \<and> regionPagesAsserted r"
proof (cases "regions = []")
  case True
  then show ?thesis by simp
next
  case False
  with assms have ends: "regionEndsAsserted regions" and ordered: "regionsOrdered regions"
    and loop: "layoutLoop regions (largeRegionsOf regions) 0 0 [] = Some idx"
    by (simp_all add: rowIndexOf_def split: if_splits)
  from False obtain front rest where regions: "regions = front # rest"
    by (cases regions) auto
  have large: "largeRegionsOf regions \<noteq> []"
    and "snd (last (largeRegionsOf regions)) = end_addr (last regions)"
    using coalesceLoop_last [of "(start front, end_addr front)" regions "[]"]
    by (simp_all add: largeRegionsOf_def regions)
  with ordered_ends [OF ends ordered]
  have "\<forall>j < length regions. end_addr (regions ! j) \<le> snd (last (largeRegionsOf regions))"
    by simp
  from layoutLoop_checked [OF loop large this]
  have "\<forall>j < length regions. regionPagesAsserted (regions ! j)"
    by simp
  then have "\<forall>r \<in> set regions. regionPagesAsserted r"
    by (simp add: all_set_conv_all_nth)
  with ends show ?thesis
    by (simp add: regionEndsAsserted_def list_all_iff)
qed

lemma pages_multiple:
  assumes "regionPagesAsserted r"
  shows "unat (end_addr r - start r) mod pageSize = 0"
proof -
  define k where "k = length (useCounts r) * pageSize"
  from assms have "end_addr r - start r = of_nat k"
    by (simp add: regionPagesAsserted_def algebra_simps k_def)
  then have "unat (end_addr r - start r) = k mod 2 ^ 64"
    by (simp add: unat_of_nat)
  moreover have "(4096 :: nat) dvd 2 ^ 64"
    by simp
  moreover have "k mod 4096 = 0"
    by (simp add: k_def pageSize_def)
  ultimately show ?thesis
    by (simp add: pageSize_def mod_mod_cancel)
qed


lemma gap_wrap:
  fixes e :: u64
  assumes "\<not> unat e + gapTolerancePages * pageSize < 2 ^ 64"
  shows "e > e + maxAllowedGap"
proof -
  have small: "unat e < 2 ^ 64"
    using unsigned_less [of e, where 'a = nat] by simp
  have "unat (e + maxAllowedGap) = (unat e + 262144) mod 2 ^ 64"
    by (simp add: maxAllowedGap_def pageSize_def unat_word_ariths)
  also have "\<dots> = (unat e + 262144 - 2 ^ 64) mod 2 ^ 64"
    using assms by (simp add: gapTolerancePages_def pageSize_def le_mod_geq)
  also have "\<dots> = unat e + 262144 - 2 ^ 64"
    using small by simp
  finally have sum: "unat (e + maxAllowedGap) = unat e + 262144 - 2 ^ 64" .
  have "18446744073709289472 \<le> unat e"
    using assms by (simp add: gapTolerancePages_def pageSize_def)
  with sum have "unat (e + maxAllowedGap) < unat e"
    by simp
  then show ?thesis
    by (simp add: word_less_nat_alt)
qed

lemma zero_length_layout:
  assumes "start mr = end_addr mr" and "useCounts mr = []"
  shows "rowIndexOf [mr] =
     (if unat (end_addr mr) + gapTolerancePages * pageSize < 2 ^ 64
      then Some [(0, start mr)] else None)"
proof -
  have painted: "paintLargeRegion [mr] (end_addr mr) 0 (row, 0) = Some (1, row, 0)" for row
    using assms
    by (simp add: paintLargeRegion.simps [of "[mr]"] regionColors_def paintPages.simps [of mr]
        regionPagesAsserted_def gapPagesOf_def fillTiles.simps [of _ _ 0])
  show ?thesis
  proof (cases "unat (end_addr mr) + gapTolerancePages * pageSize < 2 ^ 64")
    case True
    then have "\<not> start mr > end_addr mr + maxAllowedGap"
      using gap_test [OF True, of "start mr"] assms(1) by simp
    then have "largeRegionsOf [mr] = [(start mr, end_addr mr)]"
      by (simp add: largeRegionsOf_def)
    with True painted assms(1) show ?thesis
      by (simp add: rowIndexOf_def regionEndsAsserted_def)
  next
    case False
    then have "start mr > end_addr mr + maxAllowedGap"
      using gap_wrap [of "end_addr mr"] assms(1) by simp
    then have "largeRegionsOf [mr] = [(start mr, end_addr mr), (start mr, end_addr mr)]"
      by (simp add: largeRegionsOf_def)
    with False painted assms(1) show ?thesis
      by (simp add: rowIndexOf_def regionEndsAsserted_def)
  qed
qed

lemma decodeRegion_lengths:
  assumes "decodeRegion buf pos = Some (mr, pos')"
  shows "length (useCounts mr) = unat (end_addr mr - start mr) div pageSize \<and>
         length (combinedFlags mr) = unat (end_addr mr - start mr) div pageSize"
proof -
  have "arrayLength s e = unat (e - s) div pageSize" for s e
    by (simp add: arrayLength_def unat_div pageSize_def)
  with assms show ?thesis
    by (auto simp: decodeRegion_def read_u64_def read_u32_def read_bytes_def read_u32_array_def
        Let_def split: if_splits)
qed

lemma decodeRegion_zero_length:
  assumes "u64_at buf (pos + 8) = u64_at buf pos"
    and "pos + 20 + paddedLength (u32_at buf (pos + 16)) \<le> length buf"
  shows "decodeRegion buf pos =
     Some (\<lparr>start = u64_at buf pos, end_addr = u64_at buf pos,
            backingFile = bytes_at buf (pos + 20) (unat (u32_at buf (pos + 16))),
            useCounts = [], combinedFlags = []\<rparr>,
           pos + 20 + paddedLength (u32_at buf (pos + 16)))"
proof -
  have zero: "arrayLength (u64_at buf pos) (u64_at buf pos) = 0"
    by (simp add: arrayLength_def)
  have "unat (u32_at buf (pos + 16)) \<le> paddedLength (u32_at buf (pos + 16))"
    using paddedLength_bounds [of "u32_at buf (pos + 16)"] by simp
  with assms(2) have "pos + 20 + unat (u32_at buf (pos + 16)) \<le> length buf"
    by simp
  from decodeRegion_in_buffer [OF this] assms zero show ?thesis
    by simp
qed

text \<open>
  A frame of two regions, as \<^verbatim>\<open>addData\<close> receives it: \<open>0x5000..0x5000\<close>, which is
  empty, and \<open>0x5000..0x6000\<close>, one present page with use count 1; neither has a backing
  file. The two regions as decoded, and a region \<open>0x6000..0x6001\<close> of one byte.
\<close>

definition exZeroLengthFrame :: "byte list" where
  "exZeroLengthFrame = [48,0,0,0,0,0,0,0,
                        0,0x50,0,0,0,0,0,0,  0,0x50,0,0,0,0,0,0,  0,0,0,0,
                        0,0x50,0,0,0,0,0,0,  0,0x60,0,0,0,0,0,0,  0,0,0,0,
                        1,0,0,0,  0,0,0,0x80]"

definition exZeroLengthRegion :: MappedRegion where
  "exZeroLengthRegion = \<lparr>start = 0x5000, end_addr = 0x5000, backingFile = [],
                          useCounts = [], combinedFlags = []\<rparr>"

definition exPageRegion :: MappedRegion where
  "exPageRegion = \<lparr>start = 0x5000, end_addr = 0x6000, backingFile = [],
                    useCounts = [1], combinedFlags = [0x80000000]\<rparr>"

definition exMisaligned :: MappedRegion where
  "exMisaligned = \<lparr>start = 0x6000, end_addr = 0x6001, backingFile = [],
                    useCounts = [], combinedFlags = []\<rparr>"

text \<open>
  Claim C4, as amended. A zero-length region is accepted. A region entry with
  \<open>end = start\<close> whose header and padded backing-file name lie in the buffer is decoded,
  with no use counts and no flags; \<^verbatim>\<open>updatePageInfo\<close> lays out the snapshot that holds
  just such a region as the row-index entry \<open>(0, start)\<close> without failing an assertion,
  unless the region lies within 64 pages of the top of the address space, where
  \<^verbatim>\<open>assert(iMappedRegion < regions.size())\<close> fails. A decoded region has
  \<open>(end - start) div pageSize\<close> use counts and as many flags. Regions with
  \<open>end < start\<close>, or with \<open>end - start\<close> not a multiple of the page size, are stopped by
  the assertions of \<^verbatim>\<open>updatePageInfo\<close>: whenever it completes on a snapshot, every region
  of the snapshot has \<open>start \<le> end\<close>, \<open>start + pages * pageSize = end\<close> for its number of
  use counts, and \<open>end - start\<close> a multiple of the page size.
\<close>

theorem zero_length_region_accepted:
  "(u64_at buf (pos + 8) = u64_at buf pos \<and>
    pos + 20 + paddedLength (u32_at buf (pos + 16)) \<le> length buf \<longrightarrow>
      decodeRegion buf pos =
        Some (\<lparr>start = u64_at buf pos, end_addr = u64_at buf pos,
               backingFile = bytes_at buf (pos + 20) (unat (u32_at buf (pos + 16))),
               useCounts = [], combinedFlags = []\<rparr>,
              pos + 20 + paddedLength (u32_at buf (pos + 16)))) \<and>
   (start mr = end_addr mr \<and> useCounts mr = [] \<longrightarrow>
      rowIndexOf [mr] =
        (if unat (end_addr mr) + gapTolerancePages * pageSize < 2 ^ 64
         then Some [(0, start mr)] else None)) \<and>
   (decodeRegion buf pos = Some (mr, pos') \<longrightarrow>
      length (useCounts mr) = unat (end_addr mr - start mr) div pageSize \<and>
      length (combinedFlags mr) = unat (end_addr mr - start mr) div pageSize) \<and>
   (rowIndexOf regions = Some m_largeRegions \<longrightarrow>
      (\<forall>r \<in> set regions.
         start r \<le> end_addr r \<and>
         start r + of_nat (length (useCounts r)) * of_nat pageSize = end_addr r \<and>
         unat (end_addr r - start r) mod pageSize = 0))"
proof (intro conjI impI)
  assume "u64_at buf (pos + 8) = u64_at buf pos \<and>
    pos + 20 + paddedLength (u32_at buf (pos + 16)) \<le> length buf"
  then show "decodeRegion buf pos =
      Some (\<lparr>start = u64_at buf pos, end_addr = u64_at buf pos,
             backingFile = bytes_at buf (pos + 20) (unat (u32_at buf (pos + 16))),
             useCounts = [], combinedFlags = []\<rparr>,
            pos + 20 + paddedLength (u32_at buf (pos + 16)))"
    by (intro decodeRegion_zero_length) simp_all
next
  assume "start mr = end_addr mr \<and> useCounts mr = []"
  then show "rowIndexOf [mr] =
      (if unat (end_addr mr) + gapTolerancePages * pageSize < 2 ^ 64
       then Some [(0, start mr)] else None)"
    by (intro zero_length_layout) simp_all
next
  assume decoded: "decodeRegion buf pos = Some (mr, pos')"
  from decodeRegion_lengths [OF decoded]
  show "length (useCounts mr) = unat (end_addr mr - start mr) div pageSize"
    and "length (combinedFlags mr) = unat (end_addr mr - start mr) div pageSize"
    by simp_all
next
  assume "rowIndexOf regions = Some m_largeRegions"
  from rowIndexOf_checked [OF this] pages_multiple
  show "\<forall>r \<in> set regions.
      start r \<le> end_addr r \<and>
      start r + of_nat (length (useCounts r)) * of_nat pageSize = end_addr r \<and>
      unat (end_addr r - start r) mod pageSize = 0"
    by (simp add: regionPagesAsserted_def)
qed

text \<open>
  Claim C4 as stated fails: the call on \<open>exZeroLengthFrame\<close> returns true with the
  zero-length region \<open>0x5000..0x5000\<close> in the snapshot, and \<^verbatim>\<open>updatePageInfo\<close> lays the
  snapshot out with no assertion failing.
\<close>

theorem zero_length_region_counterexample:
  "addData exReader exZeroLengthFrame =
     Some (True, \<lparr>m_buffer = [], m_length = - 1,
                   m_mappedRegions = [exZeroLengthRegion, exPageRegion]\<rparr>)
   \<and> start exZeroLengthRegion = 0x5000 \<and> end_addr exZeroLengthRegion = 0x5000
   \<and> rowIndexOf [exZeroLengthRegion, exPageRegion] = Some [(0, 0x5000)]"
  by code_simp

text \<open>
  On the example frame: the entry at byte 8 is the zero-length region, decoded and laid
  out alone; the entry at byte 28 has one use count and one flag for its one page; the
  snapshot of both is laid out, so the one-page region meets the three conditions; the
  one-byte region \<open>0x6000..0x6001\<close> is not laid out.
\<close>

theorem zero_length_region_accepted_witness:
  "u64_at exZeroLengthFrame (8 + 8) = u64_at exZeroLengthFrame 8
   \<and> 8 + 20 + paddedLength (u32_at exZeroLengthFrame (8 + 16)) \<le> length exZeroLengthFrame
   \<and> decodeRegion exZeroLengthFrame 8 = Some (exZeroLengthRegion, 28)
   \<and> start exZeroLengthRegion = end_addr exZeroLengthRegion \<and> useCounts exZeroLengthRegion = []
   \<and> rowIndexOf [exZeroLengthRegion] = Some [(0, 0x5000)]
   \<and> decodeRegion exZeroLengthFrame 28 = Some (exPageRegion, 56)
   \<and> length (useCounts exPageRegion) = unat (0x6000 - 0x5000 :: u64) div pageSize
   \<and> length (combinedFlags exPageRegion) = unat (0x6000 - 0x5000 :: u64) div pageSize
   \<and> rowIndexOf [exZeroLengthRegion, exPageRegion] = Some [(0, 0x5000)]
   \<and> start exPageRegion \<le> end_addr exPageRegion
   \<and> start exPageRegion + of_nat (length (useCounts exPageRegion)) * of_nat pageSize
        = end_addr exPageRegion
   \<and> unat (end_addr exPageRegion - start exPageRegion) mod pageSize = 0
   \<and> unat (end_addr exMisaligned - start exMisaligned) mod pageSize = 1
   \<and> rowIndexOf [exMisaligned] = None"
proof -
  have h1: "u64_at exZeroLengthFrame (8 + 8) = u64_at exZeroLengthFrame 8"
    by code_simp
  have h2: "8 + 20 + paddedLength (u32_at exZeroLengthFrame (8 + 16)) \<le> length exZeroLengthFrame"
    by code_simp
  have v1: "u64_at exZeroLengthFrame 8 = 0x5000" and v2: "u32_at exZeroLengthFrame 24 = 0"
    and v3: "paddedLength 0 = 0"
    by code_simp+
  have d1: "decodeRegion exZeroLengthFrame 8 = Some (exZeroLengthRegion, 28)"
    using zero_length_region_accepted [of exZeroLengthFrame 8, THEN conjunct1] h1 h2
    by (simp add: v1 v2 v3 exZeroLengthRegion_def bytes_at_def)
  have z1: "start exZeroLengthRegion = end_addr exZeroLengthRegion"
    and z2: "useCounts exZeroLengthRegion = []"
    by (simp_all add: exZeroLengthRegion_def)
  have r1: "rowIndexOf [exZeroLengthRegion] = Some [(0, 0x5000)]"
    using zero_length_region_accepted [of _ _ exZeroLengthRegion, THEN conjunct2, THEN conjunct1]
      z1 z2
    by (simp add: exZeroLengthRegion_def gapTolerancePages_def pageSize_def)
  have d2: "decodeRegion exZeroLengthFrame 28 = Some (exPageRegion, 56)"
    by code_simp
  have ends: "start exPageRegion = 0x5000" "end_addr exPageRegion = 0x6000"
    by (simp_all add: exPageRegion_def)
  note lengths = zero_length_region_accepted [of exZeroLengthFrame 28 exPageRegion 56,
      THEN conjunct2, THEN conjunct2, THEN conjunct1, rule_format, OF d2, unfolded ends]
  have r2: "rowIndexOf [exZeroLengthRegion, exPageRegion] = Some [(0, 0x5000)]"
    by code_simp
  from zero_length_region_accepted [of _ _ _ _ "[exZeroLengthRegion, exPageRegion]" "[(0, 0x5000)]",
      THEN conjunct2, THEN conjunct2, THEN conjunct2, rule_format, OF r2, of exPageRegion]
  have checked: "start exPageRegion \<le> end_addr exPageRegion
      \<and> start exPageRegion + of_nat (length (useCounts exPageRegion)) * of_nat pageSize
           = end_addr exPageRegion
      \<and> unat (end_addr exPageRegion - start exPageRegion) mod pageSize = 0"
    by simp
  have m1: "unat (end_addr exMisaligned - start exMisaligned) mod pageSize = 1"
    by (simp add: exMisaligned_def pageSize_def)
  have "rowIndexOf [exMisaligned] \<noteq> Some m_largeRegions" for m_largeRegions
    using zero_length_region_accepted [of _ _ _ _ "[exMisaligned]" m_largeRegions,
        THEN conjunct2, THEN conjunct2, THEN conjunct2] m1
    by auto
  then have m2: "rowIndexOf [exMisaligned] = None"
    by blast
  show ?thesis
    by (intro conjI h1 h2 d1 z1 z2 r1 d2 lengths [THEN conjunct1] lengths [THEN conjunct2] r2
        checked [THEN conjunct1] checked [THEN conjunct2, THEN conjunct1]
        checked [THEN conjunct2, THEN conjunct2] m1 m2)
qed

subsection \<open>MosaicWidget::addressAtPos\<close>

text \<open>
  \<^verbatim>\<open>addressAtPos\<close> after its conversion of the widget position to \<open>row\<close> and \<open>column\<close>:
  the search in \<^verbatim>\<open>m_largeRegions\<close> and
  \<^verbatim>\<open>lIt->second + ((row - lIt->first) * s_columnCount + column) * PageInfo::pageSize\<close>.
  \<open>row\<close>, \<open>column\<close>, \<^verbatim>\<open>lIt->first\<close> and \<^verbatim>\<open>s_columnCount\<close> are 32-bit unsigned, so the
  cell offset is computed in 32 bits; the page size is taken to be an \<^verbatim>\<open>unsigned int\<close>
  like the constants of the file, so the product is a 32-bit one as well, widened for
  the 64-bit sum.
\<close>

definition addressAtCell :: "(u32 \<times> u64) list \<Rightarrow> u32 \<Rightarrow> u32 \<Rightarrow> u64" where
  "addressAtCell m_largeRegions row column =
     (if upperBound (\<lambda>rhs. row < fst rhs) m_largeRegions 0 (length m_largeRegions) = 0 then 0
      else snd (m_largeRegions !
                  (upperBound (\<lambda>rhs. row < fst rhs) m_largeRegions 0 (length m_largeRegions) - 1))
           + ucast (((row - fst (m_largeRegions !
                  (upperBound (\<lambda>rhs. row < fst rhs) m_largeRegions 0 (length m_largeRegions) - 1)))
                     * s_columnCount + column) * of_nat pageSize))"

text \<open>The conversion of the widget position:
  \<^verbatim>\<open>row = qMax(0, widgetPos.y()) / s_pixelsPerTile\<close> and
  \<^verbatim>\<open>column = qBound(0, widgetPos.x() / int(s_pixelsPerTile), int(s_columnCount))\<close>, the
  second division being the truncating division of \<^verbatim>\<open>int\<close>.\<close>

definition truncDiv :: "int \<Rightarrow> int \<Rightarrow> int" where
  "truncDiv a b = (if a < 0 then - ((- a) div b) else a div b)"

definition qBound :: "int \<Rightarrow> int \<Rightarrow> int \<Rightarrow> int" where
  "qBound lo v hi = max lo (min hi v)"

definition addressAtPos :: "(u32 \<times> u64) list \<Rightarrow> int \<times> int \<Rightarrow> u64" where
  "addressAtPos m_largeRegions widgetPos =
     addressAtCell m_largeRegions
       (of_int (max 0 (snd widgetPos) div 4))
       (of_int (qBound 0 (truncDiv (fst widgetPos) 4) 512))"

text \<open>The scenario of the spec: one region \<open>0x1000..0x3000\<close>, two present pages with
  use count 1.\<close>

definition exSnapshot :: "MappedRegion list" where
  "exSnapshot = [\<lparr>start = 0x1000, end_addr = 0x3000, backingFile = [],
                   useCounts = [1, 1], combinedFlags = [0x80000000, 0x80000000]\<rparr>]"








subsection \<open>MosaicWidget::printPageFlagsAtAddr\<close>

text \<open>
  What \<^verbatim>\<open>printPageFlagsAtAddr\<close> emits: nothing, or \<^verbatim>\<open>showFlags(flags)\<close> with
  \<^verbatim>\<open>showPageInfo(addr, useCount, backingFile)\<close>. \<open>GapAssertFailed\<close> is the failure of
  \<^verbatim>\<open>Q_ASSERT(rIt != m_regions.begin())\<close>, \<open>IndexOutOfRange\<close> a page index beyond the
  region's vectors.
\<close>

datatype pageReport =
  NoReport
  | Report u32 u64 u32 "byte list"
  | GapAssertFailed
  | IndexOutOfRange

definition printPageFlagsAtAddr :: "MappedRegion list \<Rightarrow> u64 \<Rightarrow> pageReport" where
  "printPageFlagsAtAddr m_regions addr =
     (if addr = 0 then NoReport
      else if upperBound (\<lambda>rhs. addr < end_addr rhs) m_regions 0 (length m_regions)
                = length m_regions
        then NoReport
      else if start (m_regions ! upperBound (\<lambda>rhs. addr < end_addr rhs) m_regions 0
                       (length m_regions)) > addr
        then (if upperBound (\<lambda>rhs. addr < end_addr rhs) m_regions 0 (length m_regions) = 0
              then GapAssertFailed else NoReport)
      else
        (let region = m_regions ! upperBound (\<lambda>rhs. addr < end_addr rhs) m_regions 0
                        (length m_regions);
             index = unat ((addr - start region) div of_nat pageSize)
         in if index < length (combinedFlags region) \<and> index < length (useCounts region)
            then Report (combinedFlags region ! index) addr (useCounts region ! index)
                   (backingFile region)
            else IndexOutOfRange))"

text \<open>\<^verbatim>\<open>printPageFlagsAtPos\<close> is \<^verbatim>\<open>printPageFlagsAtAddr(addressAtPos(widgetPos))\<close>.\<close>

definition printPageFlagsAtPos ::
  "MappedRegion list \<Rightarrow> (u32 \<times> u64) list \<Rightarrow> int \<times> int \<Rightarrow> pageReport" where
  "printPageFlagsAtPos m_regions m_largeRegions widgetPos =
     printPageFlagsAtAddr m_regions (addressAtPos m_largeRegions widgetPos)"

definition printPageFlagsAtCell ::
  "MappedRegion list \<Rightarrow> (u32 \<times> u64) list \<Rightarrow> u32 \<Rightarrow> u32 \<Rightarrow> pageReport" where
  "printPageFlagsAtCell m_regions m_largeRegions row column =
     printPageFlagsAtAddr m_regions (addressAtCell m_largeRegions row column)"

text \<open>A snapshot whose first region starts at address 0.\<close>

definition exZeroSnapshot :: "MappedRegion list" where
  "exZeroSnapshot = [\<lparr>start = 0, end_addr = 0x2000, backingFile = [],
                       useCounts = [1, 2], combinedFlags = [0x80000000, 0x80000800]\<rparr>]"


lemma upperBound_all:
  assumes "\<forall>x \<in> set xs. cmp x"
  shows "upperBound cmp xs 0 (length xs) = 0"
proof (rule ccontr)
  assume nonzero: "upperBound cmp xs 0 (length xs) \<noteq> 0"
  have mono: "\<forall>i j. i \<le> j \<and> j < length xs \<and> cmp (xs ! i) \<longrightarrow> cmp (xs ! j)"
    using assms by simp
  from upperBound_partition [of xs cmp 0 "length xs", OF mono]
  have "upperBound cmp xs 0 (length xs) \<le> length xs"
    and "\<forall>i. i < upperBound cmp xs 0 (length xs) \<longrightarrow> \<not> cmp (xs ! i)"
    by simp_all
  with nonzero have "0 < length xs" and "\<not> cmp (xs ! 0)"
    by auto
  with assms show False
    by simp
qed

text \<open>
  Claim C10. \<open>printPageFlagsAtAddr\<close> reports nothing for the address 0, whatever the
  regions are; \<open>addressAtCell\<close> returns 0 when the row precedes every recorded row; so a
  cell whose address is 0, by a miss or genuinely, produces no flag and no use-count
  output, from a cell as from a widget position.
\<close>

theorem zero_address_no_report:
  "printPageFlagsAtAddr m_regions 0 = NoReport \<and>
   ((\<forall>entry \<in> set m_largeRegions. row < fst entry) \<longrightarrow>
      addressAtCell m_largeRegions row column = 0) \<and>
   (addressAtCell m_largeRegions row column = 0 \<longrightarrow>
      printPageFlagsAtCell m_regions m_largeRegions row column = NoReport) \<and>
   (addressAtPos m_largeRegions widgetPos = 0 \<longrightarrow>
      printPageFlagsAtPos m_regions m_largeRegions widgetPos = NoReport)"
  using upperBound_all [of m_largeRegions "\<lambda>rhs. row < fst rhs"]
  by (simp add: printPageFlagsAtAddr_def printPageFlagsAtCell_def printPageFlagsAtPos_def
      addressAtCell_def)

text \<open>
  In the snapshot whose first region starts at address 0 the row index is \<open>[(0, 0)]\<close>:
  cell \<open>(0, 0)\<close> has the genuine address 0 and reports nothing, while its neighbour
  \<open>(0, 1)\<close> reports its flags and use count; a row before the first recorded row has
  address 0 as well.
\<close>

theorem zero_address_no_report_witness:
  "rowIndexOf exZeroSnapshot = Some [(0, 0)]
   \<and> addressAtCell [(0, 0)] 0 0 = 0
   \<and> printPageFlagsAtCell exZeroSnapshot [(0, 0)] 0 0 = NoReport
   \<and> printPageFlagsAtCell exZeroSnapshot [(0, 0)] 0 1 = Report 0x80000800 0x1000 2 []
   \<and> (2 :: u32) < fst (5 :: u32, 0x1000 :: u64)
   \<and> addressAtCell [(5, 0x1000)] 2 0 = 0
   \<and> printPageFlagsAtCell exSnapshot [(5, 0x1000)] 2 0 = NoReport
   \<and> addressAtPos [(0, 0)] (1, 2) = 0
   \<and> printPageFlagsAtPos exZeroSnapshot [(0, 0)] (1, 2) = NoReport"
proof -
  have index: "rowIndexOf exZeroSnapshot = Some [(0, 0)]"
    by code_simp
  have genuine: "addressAtCell [(0, 0)] 0 0 = 0"
    by code_simp
  have silent: "printPageFlagsAtCell exZeroSnapshot [(0, 0)] 0 0 = NoReport"
    using zero_address_no_report [of exZeroSnapshot "[(0, 0)]" 0 0] genuine by simp
  have neighbour: "printPageFlagsAtCell exZeroSnapshot [(0, 0)] 0 1 =
      Report 0x80000800 0x1000 2 []"
    by code_simp
  have before: "(2 :: u32) < fst (5 :: u32, 0x1000 :: u64)"
    by (simp add: word_less_nat_alt)
  have miss: "addressAtCell [(5, 0x1000)] 2 0 = 0"
    using zero_address_no_report [of exSnapshot "[(5, 0x1000)]" 2 0] before by simp
  have miss_silent: "printPageFlagsAtCell exSnapshot [(5, 0x1000)] 2 0 = NoReport"
    using zero_address_no_report [of exSnapshot "[(5, 0x1000)]" 2 0] miss by simp
  have pixel: "addressAtPos [(0, 0)] (1, 2) = 0"
    by code_simp
  have pixel_silent: "printPageFlagsAtPos exZeroSnapshot [(0, 0)] (1, 2) = NoReport"
    using zero_address_no_report [of exZeroSnapshot "[(0, 0)]" 0 0 "(1, 2)"] pixel by simp
  show ?thesis
    by (intro conjI index genuine silent neighbour before miss miss_silent pixel pixel_silent)
qed

end
